theory Spec2Isabelle
  imports Main "HOL-Library.Char_ord" "HOL-Library.List_Lexorder" "HOL-Library.Multiset"
begin

section \<open>Strings\<close>

text \<open>
  A Go \<^verbatim>\<open>string\<close> is a sequence of bytes, modelled as \<^typ>\<open>string\<close>. The functions of
  package \<^verbatim>\<open>strings\<close> that the program calls are written out below, on bytes. Where Go
  reads the bytes as UTF-8, the model looks for the encodings of the characters that
  matter.
\<close>

text \<open>\<^verbatim>\<open>strings.HasPrefix(s, p)\<close> and \<^verbatim>\<open>strings.HasSuffix(s, p)\<close>.\<close>

definition HasPrefix :: "string \<Rightarrow> string \<Rightarrow> bool" where
  "HasPrefix s p = (take (length p) s = p)"

definition HasSuffix :: "string \<Rightarrow> string \<Rightarrow> bool" where
  "HasSuffix s p = (length p \<le> length s \<and> drop (length s - length p) s = p)"

definition ascii_lower :: "char \<Rightarrow> char" where
  "ascii_lower c =
     (case map_of (zip ''ABCDEFGHIJKLMNOPQRSTUVWXYZ'' ''abcdefghijklmnopqrstuvwxyz'') c of
        Some d \<Rightarrow> d
      | None \<Rightarrow> c)"

definition ascii_upper :: "char \<Rightarrow> char" where
  "ascii_upper c =
     (case map_of (zip ''abcdefghijklmnopqrstuvwxyz'' ''ABCDEFGHIJKLMNOPQRSTUVWXYZ'') c of
        Some d \<Rightarrow> d
      | None \<Rightarrow> c)"

definition byte :: "char \<Rightarrow> nat" where
  "byte c = of_char c"

text \<open>
  The width of the UTF-8 encoding at the head of a text, as \<^verbatim>\<open>utf8.DecodeRune\<close> accepts
  it: one byte below 0x80, or a leading byte with its continuation bytes, without the
  overlong forms, the surrogates and the values above U+10FFFF. The width is 0 when the
  head is no such encoding; Go then reads one byte as U+FFFD.
\<close>

definition cont :: "char \<Rightarrow> bool" where
  "cont c = (0x80 \<le> byte c \<and> byte c \<le> 0xBF)"

definition rune_width :: "string \<Rightarrow> nat" where
  "rune_width s =
     (case s of
        [] \<Rightarrow> 0
      | c # t \<Rightarrow>
          if byte c < 0x80 then 1
          else if 0xC2 \<le> byte c \<and> byte c \<le> 0xDF then
            (case t of d # _ \<Rightarrow> if cont d then 2 else 0 | _ \<Rightarrow> 0)
          else if 0xE0 \<le> byte c \<and> byte c \<le> 0xEF then
            (case t of
               d # e # _ \<Rightarrow>
                 if (if byte c = 0xE0 then 0xA0 else 0x80) \<le> byte d
                    \<and> byte d \<le> (if byte c = 0xED then 0x9F else 0xBF) \<and> cont e
                 then 3 else 0
             | _ \<Rightarrow> 0)
          else if 0xF0 \<le> byte c \<and> byte c \<le> 0xF4 then
            (case t of
               d # e # f # _ \<Rightarrow>
                 if (if byte c = 0xF0 then 0x90 else 0x80) \<le> byte d
                    \<and> byte d \<le> (if byte c = 0xF4 then 0x8F else 0xBF) \<and> cont e \<and> cont f
                 then 4 else 0
             | _ \<Rightarrow> 0)
          else 0)"

text \<open>
  \<^verbatim>\<open>strings.ToLower\<close>, character by character. A byte below 0x80 is mapped as an ASCII
  letter. U+0130 (bytes C4 B0) and U+212A (bytes E2 84 AA) are the characters outside
  ASCII whose lower case is in ASCII: \<^verbatim>\<open>i\<close> and \<^verbatim>\<open>k\<close>. A byte that begins no encoding is
  written as U+FFFD (bytes EF BF BD). Any other character is written back as it stands:
  the Unicode table of its lower case is not reproduced here. Go writes the lower case of
  such a character, which is again a character outside ASCII; the program compares the
  result with ASCII texts only, at its start or at its end, and these comparisons come
  out the same.
\<close>

function ToLower :: "string \<Rightarrow> string" where
  "ToLower [] = []"
| "ToLower (c # s) =
     (if byte c < 0x80 then ascii_lower c # ToLower s
      else if HasPrefix (c # s) [CHR 0xC4, CHR 0xB0] then CHR ''i'' # ToLower (drop 1 s)
      else if HasPrefix (c # s) [CHR 0xE2, CHR 0x84, CHR 0xAA] then CHR ''k'' # ToLower (drop 2 s)
      else if rune_width (c # s) = 0 then [CHR 0xEF, CHR 0xBF, CHR 0xBD] @ ToLower s
      else take (rune_width (c # s)) (c # s) @ ToLower (drop (rune_width (c # s) - 1) s))"
  by pat_completeness auto
termination
  by (relation "measure length") auto

text \<open>
  The encodings of the characters that Go's simple case folding puts with an ASCII
  character: both cases of a letter, U+212A (bytes E2 84 AA) with \<^verbatim>\<open>k\<close>, and U+017F (bytes
  C5 BF) with \<^verbatim>\<open>s\<close>. Both \<^verbatim>\<open>strings.EqualFold\<close> and the flag \<^verbatim>\<open>(?i)\<close> of package \<^verbatim>\<open>regexp\<close>
  fold so.
\<close>

definition fold_variants :: "char \<Rightarrow> string list" where
  "fold_variants c =
     remdups [[ascii_lower c], [ascii_upper c]]
     @ (if ascii_lower c = CHR ''k'' then [[CHR 0xE2, CHR 0x84, CHR 0xAA]] else [])
     @ (if ascii_lower c = CHR ''s'' then [[CHR 0xC5, CHR 0xBF]] else [])"

text \<open>\<^verbatim>\<open>strings.EqualFold(s, t)\<close> for a text \<open>t\<close> of ASCII characters, which is how the
  program calls it: \<open>s\<close> is made of one folding variant for each character of \<open>t\<close>.\<close>

fun EqualFold :: "string \<Rightarrow> string \<Rightarrow> bool" where
  "EqualFold s [] = (s = [])"
| "EqualFold s (c # t) =
     list_ex (\<lambda>w. HasPrefix s w \<and> EqualFold (drop (length w) s) t) (fold_variants c)"

text \<open>
  The white space of \<^verbatim>\<open>strings.TrimSpace\<close> (\<^verbatim>\<open>unicode.IsSpace\<close>), as UTF-8: tab, line feed,
  vertical tab, form feed, carriage return, space, U+0085, U+00A0, U+1680, U+2000 to
  U+200A, U+2028, U+2029, U+202F, U+205F and U+3000.
\<close>

definition space_runes :: "string list" where
  "space_runes =
     [[CHR 0x09], [CHR 0x0A], [CHR 0x0B], [CHR 0x0C], [CHR 0x0D], [CHR 0x20],
      [CHR 0xC2, CHR 0x85], [CHR 0xC2, CHR 0xA0], [CHR 0xE1, CHR 0x9A, CHR 0x80],
      [CHR 0xE2, CHR 0x80, CHR 0x80], [CHR 0xE2, CHR 0x80, CHR 0x81],
      [CHR 0xE2, CHR 0x80, CHR 0x82], [CHR 0xE2, CHR 0x80, CHR 0x83],
      [CHR 0xE2, CHR 0x80, CHR 0x84], [CHR 0xE2, CHR 0x80, CHR 0x85],
      [CHR 0xE2, CHR 0x80, CHR 0x86], [CHR 0xE2, CHR 0x80, CHR 0x87],
      [CHR 0xE2, CHR 0x80, CHR 0x88], [CHR 0xE2, CHR 0x80, CHR 0x89],
      [CHR 0xE2, CHR 0x80, CHR 0x8A], [CHR 0xE2, CHR 0x80, CHR 0xA8],
      [CHR 0xE2, CHR 0x80, CHR 0xA9], [CHR 0xE2, CHR 0x80, CHR 0xAF],
      [CHR 0xE2, CHR 0x81, CHR 0x9F], [CHR 0xE3, CHR 0x80, CHR 0x80]]"

text \<open>
  \<^verbatim>\<open>strings.TrimSpace\<close> takes the white space off the start of the text, one character
  after the other, and then off its end. A text begins with a character of the list
  exactly when it begins with its encoding, and it ends with one
  (\<^verbatim>\<open>utf8.DecodeLastRuneInString\<close>) exactly when it ends with its encoding.
\<close>

function TrimLeft :: "string \<Rightarrow> string" where
  "TrimLeft s =
     (case find (\<lambda>w. HasPrefix s w) space_runes of
        None \<Rightarrow> s
      | Some w \<Rightarrow> TrimLeft (drop (length w) s))"
  by pat_completeness auto
termination
proof (relation "measure length")
  show "wf (measure length)" by simp
next
  fix s :: string and w
  assume "find (\<lambda>w. HasPrefix s w) space_runes = Some w"
  then have "w \<in> set space_runes" and "HasPrefix s w"
    by (auto simp: find_Some_iff)
  then have "w \<noteq> []" and "take (length w) s = w"
    by (auto simp: space_runes_def HasPrefix_def)
  then have "s \<noteq> []" by auto
  with \<open>w \<noteq> []\<close> show "(drop (length w) s, s) \<in> measure length"
    by simp
qed

function TrimRight :: "string \<Rightarrow> string" where
  "TrimRight s =
     (case find (\<lambda>w. HasSuffix s w) space_runes of
        None \<Rightarrow> s
      | Some w \<Rightarrow> TrimRight (take (length s - length w) s))"
  by pat_completeness auto
termination
proof (relation "measure length")
  show "wf (measure length)" by simp
next
  fix s :: string and w
  assume "find (\<lambda>w. HasSuffix s w) space_runes = Some w"
  then have "w \<in> set space_runes" and "HasSuffix s w"
    by (auto simp: find_Some_iff)
  then have "w \<noteq> []" and "length w \<le> length s"
    by (auto simp: space_runes_def HasSuffix_def)
  then show "(take (length s - length w) s, s) \<in> measure length"
    by (cases s) auto
qed

declare TrimLeft.simps [simp del] TrimRight.simps [simp del]

definition TrimSpace :: "string \<Rightarrow> string" where
  "TrimSpace s = TrimRight (TrimLeft s)"

text \<open>\<^verbatim>\<open>strings.Split(s, "\n")\<close>: the pieces between line feeds; a text of \<open>n\<close> line feeds
  has \<open>n + 1\<close> pieces.\<close>

fun split_lines :: "string \<Rightarrow> string list" where
  "split_lines [] = [[]]"
| "split_lines (c # cs) =
     (if c = CHR 0x0A then [] # split_lines cs
      else (case split_lines cs of
              [] \<Rightarrow> [[c]]
            | l # ls \<Rightarrow> (c # l) # ls))"

text \<open>\<^verbatim>\<open>path.Base(p)\<close>: the last element of a slash-separated path, after the trailing
  slashes are removed; \<^verbatim>\<open>"."\<close> for the empty path and \<^verbatim>\<open>"/"\<close> for a path of slashes only.\<close>

definition path_Base :: "string \<Rightarrow> string" where
  "path_Base p =
     (if p = [] then ''.''
      else (let q = rev (dropWhile (\<lambda>c. c = CHR ''/'') (rev p));
                b = rev (takeWhile (\<lambda>c. c \<noteq> CHR ''/'') (rev q))
            in if b = [] then ''/'' else b))"

section \<open>Regular expressions\<close>

text \<open>
  The four expressions of the program use literals, character classes, the anchors
  \<^verbatim>\<open>^\<close> and \<^verbatim>\<open>$\<close>, concatenation, alternation, an optional group, capture groups and
  the repetitions \<^verbatim>\<open>*\<close>, \<^verbatim>\<open>+\<close> and \<^verbatim>\<open>+?\<close> of a single character class. \<open>re\<close> is that
  fragment. Package \<^verbatim>\<open>regexp\<close> returns the match a backtracking search finds first:
  the left alternative before the right one, a greedy repetition from its longest
  run down, a lazy one from its shortest run up.
\<close>

datatype re =
    Eps
  | Lit char
  | LitI char
  | Cls "char \<Rightarrow> bool"
  | Bol
  | Eol
  | Seq re re
  | Alt re re
  | Opt re
  | Star "char \<Rightarrow> bool"
  | Plus "char \<Rightarrow> bool" bool
  | Grp nat re

type_synonym caps = "(nat \<times> string) list"

text \<open>A configuration of the search: whether the position is the start of the text,
  the text from the position on, and the groups captured so far.\<close>

type_synonym mstate = "bool \<times> string \<times> caps"

text \<open>\<open>rm r st\<close> lists, in the order of preference, the configurations in which a match
  of \<open>r\<close> begun in \<open>st\<close> can end. \<open>LitI\<close> is a literal under the flag \<^verbatim>\<open>(?i)\<close>: it takes
  any folding variant of its character. \<open>Plus p True\<close> is the greedy \<^verbatim>\<open>+\<close> and
  \<open>Plus p False\<close> the lazy \<^verbatim>\<open>+?\<close>.\<close>

primrec rm :: "re \<Rightarrow> mstate \<Rightarrow> mstate list" where
  "rm Eps = (\<lambda>st. [st])"
| "rm (Lit c) = (\<lambda>st. case st of (b, s, g) \<Rightarrow>
     (case s of [] \<Rightarrow> [] | x # xs \<Rightarrow> if x = c then [(False, xs, g)] else []))"
| "rm (LitI c) = (\<lambda>st. case st of (b, s, g) \<Rightarrow>
     concat (map (\<lambda>w. if HasPrefix s w then [(False, drop (length w) s, g)] else [])
               (fold_variants c)))"
| "rm (Cls p) = (\<lambda>st. case st of (b, s, g) \<Rightarrow>
     (case s of [] \<Rightarrow> [] | x # xs \<Rightarrow> if p x then [(False, xs, g)] else []))"
| "rm Bol = (\<lambda>st. case st of (b, s, g) \<Rightarrow> if b then [st] else [])"
| "rm Eol = (\<lambda>st. case st of (b, s, g) \<Rightarrow> if s = [] then [st] else [])"
| "rm (Seq r1 r2) = (\<lambda>st. concat (map (rm r2) (rm r1 st)))"
| "rm (Alt r1 r2) = (\<lambda>st. rm r1 st @ rm r2 st)"
| "rm (Opt r) = (\<lambda>st. rm r st @ [st])"
| "rm (Star p) = (\<lambda>st. case st of (b, s, g) \<Rightarrow>
     map (\<lambda>k. (b \<and> k = 0, drop k s, g)) (rev [0..<Suc (length (takeWhile p s))]))"
| "rm (Plus p greedy) = (\<lambda>st. case st of (b, s, g) \<Rightarrow>
     map (\<lambda>k. (False, drop k s, g))
       (if greedy then rev [1..<Suc (length (takeWhile p s))]
        else [1..<Suc (length (takeWhile p s))]))"
| "rm (Grp i r) = (\<lambda>st. case st of (b, s, g) \<Rightarrow>
     map (\<lambda>st'. case st' of (b', s', g') \<Rightarrow> (b', s', (i, take (length s - length s') s) # g'))
       (rm r st))"

text \<open>One match of the scan: the text skipped since the previous match, the text
  matched, and the groups.\<close>

type_synonym found = "string \<times> string \<times> caps"

text \<open>
  The scan of \<^verbatim>\<open>FindAll...(s, -1)\<close>: at each position the first match that starts
  there, if any, is taken and the scan goes on at its end; otherwise the scan moves
  one byte on. \<open>skipped\<close> collects the text passed over since the last match. (After
  an empty match the scan moves one byte on; none of the four expressions of the
  program matches the empty text.)
\<close>

function find_all :: "re \<Rightarrow> bool \<Rightarrow> string \<Rightarrow> string \<Rightarrow> found list" where
  "find_all r b skipped s =
     (case rm r (b, s, []) of
        [] \<Rightarrow> (case s of [] \<Rightarrow> [] | c # t \<Rightarrow> find_all r False (skipped @ [c]) t)
      | st # _ \<Rightarrow> (case st of (b', s', g) \<Rightarrow>
          (skipped, take (length s - length s') s, g) #
            (if length s - length s' = 0
             then (case s of [] \<Rightarrow> [] | c # t \<Rightarrow> find_all r False [c] t)
             else find_all r False [] (drop (length s - length s') s))))"
  by pat_completeness auto
termination
  by (relation "measure (\<lambda>(r, b, skipped, s). length s)") auto

declare find_all.simps [simp del]

definition MatchString :: "re \<Rightarrow> string \<Rightarrow> bool" where
  "MatchString r s = (find_all r True [] s \<noteq> [])"

definition FindAllString :: "re \<Rightarrow> string \<Rightarrow> string list" where
  "FindAllString r s = map (\<lambda>(skipped, m, g). m) (find_all r True [] s)"

text \<open>The text of group \<open>i\<close>; a group that took no part in the match is the empty text.\<close>

definition submatch :: "nat \<Rightarrow> caps \<Rightarrow> string" where
  "submatch i g = (case map_of g i of Some t \<Rightarrow> t | None \<Rightarrow> [])"

text \<open>\<^verbatim>\<open>FindAllStringSubmatch\<close> for an expression of two groups: \<open>sub[1]\<close> and \<open>sub[2]\<close>.\<close>

definition FindAllStringSubmatch :: "re \<Rightarrow> string \<Rightarrow> (string \<times> string) list" where
  "FindAllStringSubmatch r s =
     map (\<lambda>(skipped, m, g). (submatch 1 g, submatch 2 g)) (find_all r True [] s)"

text \<open>\<^verbatim>\<open>Split(s, -1)\<close>: the pieces of \<open>s\<close> between the matches, and the rest after the last
  match.\<close>

definition re_Split :: "re \<Rightarrow> string \<Rightarrow> string list" where
  "re_Split r s =
     (let ms = find_all r True [] s
      in map (\<lambda>(skipped, m, g). skipped) ms @
         [drop (sum_list (map (\<lambda>(skipped, m, g). length skipped + length m) ms)) s])"

subsection \<open>The expressions of the program\<close>

fun seqs :: "re list \<Rightarrow> re" where
  "seqs [] = Eps"
| "seqs [r] = r"
| "seqs (r # rs) = Seq r (seqs rs)"

fun alts :: "re list \<Rightarrow> re" where
  "alts [] = Eps"
| "alts [r] = r"
| "alts (r # rs) = Alt r (alts rs)"

definition str :: "string \<Rightarrow> re" where
  "str w = seqs (map Lit w)"

definition stri :: "string \<Rightarrow> re" where
  "stri w = seqs (map LitI w)"

text \<open>\<^verbatim>\<open>\w\<close>, \<^verbatim>\<open>\s\<close>, \<^verbatim>\<open>.\<close>, \<^verbatim>\<open>['"]\<close> and \<^verbatim>\<open>[^'"]\<close>.\<close>

definition word_char :: "char \<Rightarrow> bool" where
  "word_char c =
     (c \<in> set ''0123456789ABCDEFGHIJKLMNOPQRSTUVWXYZ_abcdefghijklmnopqrstuvwxyz'')"

definition space_char :: "char \<Rightarrow> bool" where
  "space_char c = (c \<in> set [CHR 0x09, CHR 0x0A, CHR 0x0C, CHR 0x0D, CHR '' ''])"

definition any_char :: "char \<Rightarrow> bool" where
  "any_char c = (c \<noteq> CHR 0x0A)"

definition quote_char :: "char \<Rightarrow> bool" where
  "quote_char c = (c = CHR 0x27 \<or> c = CHR 0x22)"

definition manifest_names :: "string list" where
  "manifest_names =
     [''package.json'', ''package-lock.json'', ''yarn.lock'', ''pnpm-lock.yaml'',
      ''requirements.txt'', ''pyproject.toml'', ''Pipfile'', ''Pipfile.lock'',
      ''constraints.txt'', ''setup.py'', ''composer.json'', ''go.mod'']"

definition manifest_end :: "char \<Rightarrow> bool" where
  "manifest_end c = (c = CHR ''?'' \<or> c = CHR ''#'' \<or> c = CHR ''/'')"

text \<open>\<^verbatim>\<open>(?i)(?:^|/)(package\.json|...|go\.mod)(?:$|[?#/])\<close>\<close>

definition manifestRe :: re where
  "manifestRe =
     Seq (Alt Bol (LitI CHR ''/''))
       (Seq (Grp 1 (alts (map stri manifest_names))) (Alt Eol (Cls manifest_end)))"

text \<open>\<^verbatim>\<open>[<>=!~\[\];\s]\<close>\<close>

definition req_delim :: "char \<Rightarrow> bool" where
  "req_delim c = (c \<in> set ''<>=!~[];'' \<or> space_char c)"

definition reqSplitRe :: re where
  "reqSplitRe = Cls req_delim"

text \<open>\<^verbatim>\<open>(?:require\(\s*['"]([^'"]+)['"]\s*\))|(?:import\s+(?:.+?\s+from\s+)?['"]([^'"]+)['"])\<close>\<close>

definition importReqRe :: re where
  "importReqRe =
     Alt
       (seqs [str ''require('', Star space_char, Cls quote_char,
              Grp 1 (Plus (\<lambda>c. \<not> quote_char c) True), Cls quote_char,
              Star space_char, Lit CHR '')''])
       (seqs [str ''import'', Plus space_char True,
              Opt (seqs [Plus any_char False, Plus space_char True, str ''from'',
                         Plus space_char True]),
              Cls quote_char, Grp 2 (Plus (\<lambda>c. \<not> quote_char c) True), Cls quote_char])"

text \<open>\<^verbatim>\<open>@[\w.-]+\/[\w.-]+\<close>\<close>

definition ident_char :: "char \<Rightarrow> bool" where
  "ident_char c = (word_char c \<or> c = CHR ''.'' \<or> c = CHR ''-'')"

definition scopedRe :: re where
  "scopedRe = seqs [Lit CHR ''@'', Plus ident_char True, Lit CHR ''/'', Plus ident_char True]"

section \<open>Import-statement analysis\<close>

text \<open>
  \<^verbatim>\<open>extractPackagesFromJS\<close>. The Go map used as a set is a duplicate-free list of keys;
  the order in which its keys are read does not matter, since they are sorted before
  they are returned (\<^verbatim>\<open>sort.Strings\<close>: bytewise lexicographic order).
\<close>

definition scoped_step :: "string list \<Rightarrow> string \<Rightarrow> string list" where
  "scoped_step keys m =
     (if HasPrefix m ''.'' \<or> HasPrefix m ''/'' then keys else List.insert m keys)"

definition import_step :: "string list \<Rightarrow> string \<times> string \<Rightarrow> string list" where
  "import_step keys sub =
     (let pkg = TrimSpace (if fst sub \<noteq> [] then fst sub
                           else if snd sub \<noteq> [] then snd sub else [])
      in if pkg = [] then keys
         else if HasPrefix pkg ''.'' \<or> HasPrefix pkg ''/'' then keys
         else if HasPrefix (ToLower pkg) ''http://'' \<or> HasPrefix (ToLower pkg) ''https://''
                 \<or> HasPrefix (ToLower pkg) ''git+'' then keys
         else List.insert pkg keys)"

definition extractPackagesFromJS :: "string \<Rightarrow> string list" where
  "extractPackagesFromJS content =
     sort (foldl import_step
             (foldl scoped_step [] (FindAllString scopedRe content))
             (FindAllStringSubmatch importReqRe content))"

section \<open>The network\<close>

text \<open>
  The HTTP client of the standard library is a parameter of the model:
  \<open>NewRequest method url\<close> is the error of \<^verbatim>\<open>http.NewRequest\<close>, if any, and
  \<open>Do method url\<close> is what \<^verbatim>\<open>httpClient.Do\<close> returns for such a request, an error or a
  response. \<open>Body\<close> is what \<^verbatim>\<open>io.ReadAll\<close> makes of the response's body. The
  \<^verbatim>\<open>User-Agent\<close> header, drawn at random, is left out.
\<close>

datatype error = Err string

record response =
  StatusCode :: int
  Body :: "error + string"

record client =
  NewRequest :: "string \<Rightarrow> string \<Rightarrow> error option"
  Do :: "string \<Rightarrow> string \<Rightarrow> error + response"

definition httpGET :: "client \<Rightarrow> string \<Rightarrow> error + (string \<times> int)" where
  "httpGET net u =
     (case NewRequest net ''GET'' u of
        Some e \<Rightarrow> Inl e
      | None \<Rightarrow>
          (case Do net ''GET'' u of
             Inl e \<Rightarrow> Inl e
           | Inr resp \<Rightarrow>
               (case Body resp of
                  Inl e \<Rightarrow> Inl e
                | Inr b \<Rightarrow> Inr (b, StatusCode resp))))"

text \<open>\<^verbatim>\<open>headCache\<close>, the process-wide map from a lookup URL to the status seen for it.\<close>

type_synonym cache = "string \<rightharpoonup> int"

definition httpHEAD :: "client \<Rightarrow> string \<Rightarrow> cache \<Rightarrow> (error + int) \<times> cache" where
  "httpHEAD net u headCache =
     (case NewRequest net ''HEAD'' u of
        Some e \<Rightarrow> (Inl e, headCache)
      | None \<Rightarrow>
          (case headCache u of
             Some st \<Rightarrow> (Inr st, headCache)
           | None \<Rightarrow>
               (case Do net ''HEAD'' u of
                  Inl e \<Rightarrow> (Inl e, headCache)
                | Inr resp \<Rightarrow> (Inr (StatusCode resp), headCache(u \<mapsto> StatusCode resp)))))"

section \<open>Dependency extraction\<close>

type_synonym language = string

definition langJS :: language where
  "langJS = ''js''"

definition langPython :: language where
  "langPython = ''python''"

text \<open>
  \<^verbatim>\<open>packageJSON\<close>: the two maps are lists of pairs, in the order in which the \<^verbatim>\<open>range\<close>
  loops read them. \<^verbatim>\<open>json.Unmarshal\<close> into a \<^verbatim>\<open>packageJSON\<close> is a parameter of
  \<open>getDependencies\<close>.
\<close>

record packageJSON =
  Dependencies :: "(string \<times> string) list"
  DevDependencies :: "(string \<times> string) list"

definition looksLikeCodeFile :: "string \<Rightarrow> bool" where
  "looksLikeCodeFile p =
     (let l = ToLower p
      in HasSuffix l ''.js'' \<or> HasSuffix l ''.mjs'' \<or> HasSuffix l ''.cjs'' \<or> HasSuffix l ''.ts'')"

text \<open>The body of the loop over the lines of a requirement list (the last part of
  \<^verbatim>\<open>getDependencies\<close>).\<close>

definition req_line :: "string list \<Rightarrow> string \<Rightarrow> string list" where
  "req_line deps ln =
     (let line = TrimSpace ln
      in if line = [] \<or> HasPrefix line ''#'' then deps
         else (case re_Split reqSplitRe line of
                 [] \<Rightarrow> deps
               | p # _ \<Rightarrow>
                   (let pkg = TrimSpace p
                    in if pkg \<noteq> [] then deps @ [pkg] else deps)))"

definition getDependencies ::
  "client \<Rightarrow> (string \<Rightarrow> error + packageJSON) \<Rightarrow> string \<Rightarrow> error + (string list \<times> language)"
where
  "getDependencies net unmarshal targetURL =
     (case httpGET net targetURL of
        Inl e \<Rightarrow> Inl e
      | Inr (body, status) \<Rightarrow>
          if EqualFold (path_Base targetURL) ''package.json'' then
            (case unmarshal body of
               Inl e \<Rightarrow> Inl e
             | Inr pj \<Rightarrow>
                 Inr (map fst (Dependencies pj) @ map fst (DevDependencies pj), langJS))
          else if looksLikeCodeFile targetURL \<and> extractPackagesFromJS body \<noteq> [] then
            Inr (extractPackagesFromJS body, langJS)
          else Inr (foldl req_line [] (split_lines body), langPython))"

section \<open>The registry check\<close>

text \<open>\<^verbatim>\<open>fmt.Sprintf(npmURL, pkg)\<close> and \<^verbatim>\<open>fmt.Sprintf(pypiURL, pkg)\<close>: the package name in
  the place of \<^verbatim>\<open>%s\<close>.\<close>

definition npmURL :: "string \<Rightarrow> string" where
  "npmURL pkg = ''https://registry.npmjs.org/'' @ pkg @ ''/''"

definition pypiURL :: "string \<Rightarrow> string" where
  "pypiURL pkg = ''https://pypi.org/project/'' @ pkg @ ''/''"

definition unclaimed_status :: "int \<Rightarrow> bool \<times> int" where
  "unclaimed_status st = (if st \<noteq> 200 \<and> st \<noteq> 302 then (True, st) else (False, st))"

definition isUnclaimed :: "client \<Rightarrow> string \<Rightarrow> language \<Rightarrow> cache \<Rightarrow> (bool \<times> int) \<times> cache" where
  "isUnclaimed net pkg lang headCache =
     (let checkURL = (if lang = langJS then npmURL pkg else pypiURL pkg)
      in case headCache checkURL of
           Some st \<Rightarrow> (unclaimed_status st, headCache)
         | None \<Rightarrow>
             (case httpHEAD net checkURL headCache of
                (Inl e, headCache') \<Rightarrow> ((False, 0), headCache')
              | (Inr status, headCache') \<Rightarrow> (unclaimed_status status, headCache')))"

section \<open>URL classification\<close>

text \<open>
  The fields of \<^verbatim>\<open>url.URL\<close> that the classifier reads. \<^verbatim>\<open>url.Parse\<close> is a parameter of
  \<open>filterManifestURLs\<close>.
\<close>

record URL =
  Scheme :: string
  Host :: string
  Path :: string
  RawQuery :: string

text \<open>
  \<^verbatim>\<open>url.PathUnescape\<close>: each \<^verbatim>\<open>%\<close> must be followed by two hexadecimal digits, and stands
  with them for one byte; any other byte stands for itself.
\<close>

definition ishex :: "char \<Rightarrow> bool" where
  "ishex c = (c \<in> set ''0123456789abcdefABCDEF'')"

definition unhex :: "char \<Rightarrow> nat" where
  "unhex c =
     (case map_of (zip ''0123456789abcdefABCDEF''
                       [0, 1, 2, 3, 4, 5, 6, 7, 8, 9, 10, 11, 12, 13, 14, 15,
                        10, 11, 12, 13, 14, 15]) c of
        Some n \<Rightarrow> n
      | None \<Rightarrow> 0)"

fun escapes_ok :: "string \<Rightarrow> bool" where
  "escapes_ok [] = True"
| "escapes_ok (c # s) =
     (if c = CHR ''%'' then
        (case s of
           h1 # h2 # t \<Rightarrow> ishex h1 \<and> ishex h2 \<and> escapes_ok t
         | _ \<Rightarrow> False)
      else escapes_ok s)"

fun unescape :: "string \<Rightarrow> string" where
  "unescape [] = []"
| "unescape (c # s) =
     (if c = CHR ''%'' then
        (case s of
           h1 # h2 # t \<Rightarrow> char_of (unhex h1 * 16 + unhex h2) # unescape t
         | _ \<Rightarrow> c # unescape s)
      else c # unescape s)"

definition PathUnescape :: "string \<Rightarrow> error + string" where
  "PathUnescape s = (if escapes_ok s then Inr (unescape s) else Inl (Err ''invalid URL escape''))"

text \<open>One round of the loop of \<^verbatim>\<open>filterManifestURLs\<close>, on the set \<open>seen\<close> and the list
  \<open>out\<close>. The error of \<^verbatim>\<open>url.PathUnescape\<close> is dropped and its result is then the empty
  text.\<close>

definition classify_line ::
  "(string \<Rightarrow> error + URL) \<Rightarrow> string set \<times> string list \<Rightarrow> string \<Rightarrow> string set \<times> string list"
where
  "classify_line parse acc raw =
     (case acc of (seen, out) \<Rightarrow>
        (let u = TrimSpace raw
         in if u = [] then acc
            else if u \<in> seen then acc
            else (case parse u of
                    Inl e \<Rightarrow> acc
                  | Inr p \<Rightarrow>
                      if Scheme p \<noteq> ''http'' \<and> Scheme p \<noteq> ''https'' then acc
                      else if Host p = [] then acc
                      else (let pathPlus = (if RawQuery p \<noteq> [] then Path p @ ''?'' @ RawQuery p
                                            else Path p);
                                unesc = (case PathUnescape pathPlus of
                                           Inl e \<Rightarrow> []
                                         | Inr d \<Rightarrow> d)
                            in if MatchString manifestRe unesc \<or> looksLikeCodeFile unesc
                               then (insert u seen, out @ [u])
                               else acc))))"

definition filterManifestURLs :: "(string \<Rightarrow> error + URL) \<Rightarrow> string list \<Rightarrow> string list" where
  "filterManifestURLs parse lines = snd (foldl (classify_line parse) ({}, []) lines)"

text \<open>The value \<^verbatim>\<open>unesc\<close> of the loop for a parsed URL, and the test that a trimmed line
  passes when the loop appends it: the conditions of one round, the one on \<open>seen\<close>
  apart.\<close>

definition unesc_path_query :: "URL \<Rightarrow> string" where
  "unesc_path_query p =
     (case PathUnescape (if RawQuery p \<noteq> [] then Path p @ ''?'' @ RawQuery p else Path p) of
        Inl e \<Rightarrow> []
      | Inr d \<Rightarrow> d)"

definition accepted :: "(string \<Rightarrow> error + URL) \<Rightarrow> string \<Rightarrow> bool" where
  "accepted parse u =
     (u \<noteq> [] \<and>
      (case parse u of
         Inl e \<Rightarrow> False
       | Inr p \<Rightarrow>
           (Scheme p = ''http'' \<or> Scheme p = ''https'') \<and> Host p \<noteq> [] \<and>
           (MatchString manifestRe (unesc_path_query p) \<or> looksLikeCodeFile (unesc_path_query p))))"

section \<open>The worker pool\<close>

text \<open>
  \<^verbatim>\<open>runWorkers\<close> starts a feeder goroutine, \<open>concurrency\<close> worker goroutines and a closer,
  and collects from \<^verbatim>\<open>outCh\<close>. The model is a step relation on the state of these
  goroutines. A worker goroutine is \<open>Idle\<close> at \<^verbatim>\<open>for it := range inCh\<close>, \<open>Holding\<close> an
  item at \<^verbatim>\<open>sem <- struct{}{}\<close>, \<open>Running\<close> inside \<^verbatim>\<open>worker(it.t)\<close> with a slot of the
  semaphore, and \<open>Sending\<close> at \<^verbatim>\<open>outCh <- out{...}\<close> after it gave the slot back.
\<close>

datatype ('t, 'r, 'e) task =
    Idle
  | Holding nat 't
  | Running nat 't
  | Sending nat 'r "'e option"

text \<open>
  \<open>inCh\<close> holds the items that the feeder has still to send, \<open>tasks\<close> the worker
  goroutines; \<open>results\<close> and \<open>firstErr\<close> are the variables of the collecting loop, and
  \<open>received\<close> records the values \<open>o\<close> that this loop has read from \<^verbatim>\<open>outCh\<close>, in their
  order. \<open>shared\<close> is the state that the invocations of the worker function share.
\<close>

record ('t, 'r, 'e, 's) pool =
  inCh :: "(nat \<times> 't) list"
  tasks :: "('t, 'r, 'e) task list"
  received :: "(nat \<times> 'r \<times> 'e option) list"
  results :: "'r list"
  firstErr :: "'e option"
  shared :: 's

fun is_running :: "('t, 'r, 'e) task \<Rightarrow> bool" where
  "is_running (Running i t) = True"
| "is_running w = False"

text \<open>
  A worker function is a relation between the item, the shared state before, and the
  result, the error and the shared state after: \<open>worker t s ((v, e), s')\<close>. One
  invocation is one step of the pool. Both channels are unbuffered, so a send and its
  receive are one step: \<open>recv\<close> of the feeder and a worker, \<open>send\<close> of a worker and the
  collecting loop.
\<close>

inductive pool_step ::
  "('t \<Rightarrow> 's \<Rightarrow> ('r \<times> 'e option) \<times> 's \<Rightarrow> bool) \<Rightarrow> nat \<Rightarrow>
   ('t, 'r, 'e, 's) pool \<Rightarrow> ('t, 'r, 'e, 's) pool \<Rightarrow> bool"
  for worker :: "'t \<Rightarrow> 's \<Rightarrow> ('r \<times> 'e option) \<times> 's \<Rightarrow> bool" and concurrency :: nat
where
  recv:
    "inCh p = (i, t) # rest \<Longrightarrow> tasks p = pre @ Idle # post \<Longrightarrow>
     pool_step worker concurrency p (p\<lparr>inCh := rest, tasks := pre @ Holding i t # post\<rparr>)"
| acquire:
    "tasks p = pre @ Holding i t # post \<Longrightarrow>
     length (filter is_running (tasks p)) < concurrency \<Longrightarrow>
     pool_step worker concurrency p (p\<lparr>tasks := pre @ Running i t # post\<rparr>)"
| call:
    "tasks p = pre @ Running i t # post \<Longrightarrow> worker t (shared p) ((v, e), s') \<Longrightarrow>
     pool_step worker concurrency p (p\<lparr>tasks := pre @ Sending i v e # post, shared := s'\<rparr>)"
| send:
    "tasks p = pre @ Sending i v e # post \<Longrightarrow>
     pool_step worker concurrency p
       (p\<lparr>tasks := pre @ Idle # post,
          received := received p @ [(i, v, e)],
          firstErr := (if e \<noteq> None \<and> firstErr p = None then e else firstErr p),
          results := results p @ [v]\<rparr>)"

text \<open>The number of worker goroutines, and of slots of the semaphore:
  \<^verbatim>\<open>if concurrency < 1 { concurrency = 1 }\<close>.\<close>

definition pool_size :: "int \<Rightarrow> nat" where
  "pool_size concurrency = nat (if concurrency < 1 then 1 else concurrency)"

definition pool_start :: "int \<Rightarrow> 't list \<Rightarrow> 's \<Rightarrow> ('t, 'r, 'e, 's) pool" where
  "pool_start concurrency inputs s =
     \<lparr>inCh = zip [0..<length inputs] inputs,
      tasks = replicate (pool_size concurrency) Idle,
      received = [], results = [], firstErr = None, shared = s\<rparr>"

text \<open>The feeder has closed \<^verbatim>\<open>inCh\<close> and every worker goroutine has left its loop: the
  closer closes \<^verbatim>\<open>outCh\<close> and the collecting loop ends.\<close>

definition pool_done :: "('t, 'r, 'e, 's) pool \<Rightarrow> bool" where
  "pool_done p = (inCh p = [] \<and> list_all (\<lambda>w. w = Idle) (tasks p))"

inductive runWorkers ::
  "('t \<Rightarrow> 's \<Rightarrow> ('r \<times> 'e option) \<times> 's \<Rightarrow> bool) \<Rightarrow> 't list \<Rightarrow> int \<Rightarrow> 's \<Rightarrow>
   ('r list \<times> 'e option) \<times> 's \<Rightarrow> bool"
where
  "(pool_step worker (pool_size concurrency))\<^sup>*\<^sup>* (pool_start concurrency inputs s) p \<Longrightarrow>
   pool_done p \<Longrightarrow>
   runWorkers worker inputs concurrency s ((results p, firstErr p), shared p)"

section \<open>The scan\<close>

record vuln =
  Package :: string
  Status :: int
  Language :: language

text \<open>The loop of \<^verbatim>\<open>checkURLDependencies\<close> that trims the names and drops the empty and
  the repeated ones.\<close>

definition dep_step :: "string set \<times> string list \<Rightarrow> string \<Rightarrow> string set \<times> string list" where
  "dep_step acc d =
     (case acc of (seen, inputs) \<Rightarrow>
        if TrimSpace d = [] then acc
        else if TrimSpace d \<in> seen then acc
        else (insert (TrimSpace d) seen, inputs @ [TrimSpace d]))"

definition dep_inputs :: "string list \<Rightarrow> string list" where
  "dep_inputs deps = snd (foldl dep_step ({}, []) deps)"

text \<open>The worker function of the inner pool; its error is always \<^verbatim>\<open>nil\<close>.\<close>

definition check_worker ::
  "client \<Rightarrow> language \<Rightarrow> string \<Rightarrow> cache \<Rightarrow> (vuln option \<times> error option) \<times> cache \<Rightarrow> bool"
where
  "check_worker net lang name headCache out =
     (out = (case isUnclaimed net name lang headCache of
               ((isV, code), headCache') \<Rightarrow>
                 ((if isV then Some \<lparr>Package = name, Status = code, Language = lang\<rparr> else None,
                   None),
                  headCache')))"

text \<open>The findings among the results of the inner pool.\<close>

fun collect :: "vuln option list \<Rightarrow> vuln list" where
  "collect [] = []"
| "collect (None # outs) = collect outs"
| "collect (Some v # outs) = v # collect outs"

inductive checkURLDependencies ::
  "client \<Rightarrow> (string \<Rightarrow> error + packageJSON) \<Rightarrow> string \<Rightarrow> int \<Rightarrow> cache \<Rightarrow>
   (vuln list \<times> error option) \<times> cache \<Rightarrow> bool"
  for net :: client and unmarshal :: "string \<Rightarrow> error + packageJSON"
where
  failed:
    "getDependencies net unmarshal targetURL = Inl e \<Longrightarrow>
     checkURLDependencies net unmarshal targetURL threads headCache (([], Some e), headCache)"
| nothing:
    "getDependencies net unmarshal targetURL = Inr ([], lang) \<Longrightarrow>
     checkURLDependencies net unmarshal targetURL threads headCache (([], None), headCache)"
| checked:
    "getDependencies net unmarshal targetURL = Inr (deps, lang) \<Longrightarrow> deps \<noteq> [] \<Longrightarrow>
     runWorkers (check_worker net lang) (dep_inputs deps) threads headCache
       ((outs, ferr), headCache') \<Longrightarrow>
     checkURLDependencies net unmarshal targetURL threads headCache
       ((collect outs, None), headCache')"

text \<open>\<^verbatim>\<open>outp\<close> of \<^verbatim>\<open>main\<close>, with its fields \<^verbatim>\<open>u\<close>, \<^verbatim>\<open>vulns\<close> and \<^verbatim>\<open>err\<close>, and the worker function
  of the outer pool; its error is always \<^verbatim>\<open>nil\<close>.\<close>

record outp =
  outp_u :: string
  outp_vulns :: "vuln list"
  outp_err :: "error option"

inductive url_worker ::
  "client \<Rightarrow> (string \<Rightarrow> error + packageJSON) \<Rightarrow> int \<Rightarrow> string \<Rightarrow> cache \<Rightarrow>
   (outp \<times> error option) \<times> cache \<Rightarrow> bool"
  for net :: client and unmarshal :: "string \<Rightarrow> error + packageJSON" and threads :: int
where
  "checkURLDependencies net unmarshal x threads headCache ((vv, e), headCache') \<Longrightarrow>
   url_worker net unmarshal threads x headCache
     ((\<lparr>outp_u = x, outp_vulns = vv, outp_err = e\<rparr>, None), headCache')"

text \<open>The flag \<^verbatim>\<open>-t\<close> as \<^verbatim>\<open>main\<close> bounds it.\<close>

definition clamp_threads :: "int \<Rightarrow> int" where
  "clamp_threads threads = (if threads < 1 then 1 else if threads > 100 then 100 else threads)"

text \<open>
  \<^verbatim>\<open>main\<close>, from the lines of the standard input to the results of the outer pool. The
  lines that \<^verbatim>\<open>main\<close> prints are \<open>report\<close> of these results: a finding and the URL it
  comes from, for each result without an error.
\<close>

definition input_lines :: "string list \<Rightarrow> string list" where
  "input_lines stdin = filter (\<lambda>line. line \<noteq> []) (map TrimSpace stdin)"

inductive main_results ::
  "client \<Rightarrow> (string \<Rightarrow> error + packageJSON) \<Rightarrow> (string \<Rightarrow> error + URL) \<Rightarrow> int \<Rightarrow>
   string list \<Rightarrow> cache \<Rightarrow> outp list \<Rightarrow> bool"
  for net :: client and unmarshal :: "string \<Rightarrow> error + packageJSON"
    and parse :: "string \<Rightarrow> error + URL" and threads :: int
where
  no_input:
    "input_lines stdin = [] \<Longrightarrow> main_results net unmarshal parse threads stdin headCache []"
| no_url:
    "input_lines stdin \<noteq> [] \<Longrightarrow> filterManifestURLs parse (input_lines stdin) = [] \<Longrightarrow>
     main_results net unmarshal parse threads stdin headCache []"
| scanned:
    "input_lines stdin \<noteq> [] \<Longrightarrow> filterManifestURLs parse (input_lines stdin) \<noteq> [] \<Longrightarrow>
     runWorkers (url_worker net unmarshal (clamp_threads threads))
       (filterManifestURLs parse (input_lines stdin)) (clamp_threads threads) headCache
       ((rs, ferr), headCache') \<Longrightarrow>
     main_results net unmarshal parse threads stdin headCache rs"

definition report :: "outp list \<Rightarrow> (vuln \<times> string) list" where
  "report rs =
     concat (map (\<lambda>r. if outp_err r \<noteq> None then []
                       else map (\<lambda>v. (v, outp_u r)) (outp_vulns r)) rs)"

section \<open>Statements of the properties\<close>

text \<open>The definitions of this section are the words of the specification, to be compared
  with the functions above.\<close>

text \<open>A module specifier that import analysis must not return: a relative or local one,
  or a remote one.\<close>

definition rejected_specifier :: "string \<Rightarrow> bool" where
  "rejected_specifier p =
     (HasPrefix p ''.'' \<or> HasPrefix p ''/'' \<or> HasPrefix (ToLower p) ''http://''
      \<or> HasPrefix (ToLower p) ''https://'' \<or> HasPrefix (ToLower p) ''git+'')"

text \<open>The specifier of one match of \<open>importReqRe\<close>: the group of \<^verbatim>\<open>require\<close>, or else the
  group of \<^verbatim>\<open>import\<close>, trimmed.\<close>

definition specifier :: "string \<times> string \<Rightarrow> string" where
  "specifier sub = TrimSpace (if fst sub \<noteq> [] then fst sub else snd sub)"

text \<open>The names of a requirement list as the loop takes them: each line is trimmed; of
  each line that is then not empty and does not begin with \<^verbatim>\<open>#\<close>, the text before the
  first delimiter is trimmed and, when it is not empty, kept.\<close>

definition requirement_name :: "string \<Rightarrow> string list" where
  "requirement_name ln =
     (let line = TrimSpace ln
      in if line = [] \<or> hd line = CHR ''#'' then []
         else (let pkg = TrimSpace (takeWhile (\<lambda>c. \<not> req_delim c) line)
               in if pkg = [] then [] else [pkg]))"

definition requirement_names :: "string \<Rightarrow> string list" where
  "requirement_names content = concat (map requirement_name (split_lines content))"

text \<open>The names as the specification words them: the blank lines and the lines that begin with
  \<^verbatim>\<open>#\<close> are left out, and of each other line the text before the first delimiter is
  kept.\<close>

definition claimed_requirement_name :: "string \<Rightarrow> string list" where
  "claimed_requirement_name ln =
     (if TrimSpace ln = [] \<or> HasPrefix ln ''#'' then []
      else [takeWhile (\<lambda>c. \<not> req_delim c) ln])"

definition claimed_requirement_names :: "string \<Rightarrow> string list" where
  "claimed_requirement_names content =
     concat (map claimed_requirement_name (split_lines content))"

text \<open>The status that the registry check sees for a lookup URL: the cached one, or else
  the one of a probe; none when the probe fails.\<close>

definition probed_status :: "client \<Rightarrow> string \<Rightarrow> cache \<Rightarrow> int option" where
  "probed_status net u headCache =
     (case headCache u of
        Some st \<Rightarrow> Some st
      | None \<Rightarrow>
          (case NewRequest net ''HEAD'' u of
             Some e \<Rightarrow> None
           | None \<Rightarrow> (case Do net ''HEAD'' u of Inl e \<Rightarrow> None | Inr resp \<Rightarrow> Some (StatusCode resp))))"

definition lookupURL :: "language \<Rightarrow> string \<Rightarrow> string" where
  "lookupURL lang pkg = (if lang = langJS then npmURL pkg else pypiURL pkg)"

text \<open>A client whose every request is answered with the given status and body, and a
  text between quotation marks, for the examples.\<close>

definition serving :: "int \<Rightarrow> string \<Rightarrow> client" where
  "serving st body =
     \<lparr>NewRequest = (\<lambda>m u. None), Do = (\<lambda>m u. Inr \<lparr>StatusCode = st, Body = Inr body\<rparr>)\<rparr>"

definition unreachable :: client where
  "unreachable = \<lparr>NewRequest = (\<lambda>m u. None), Do = (\<lambda>m u. Inl (Err ''timeout''))\<rparr>"

text \<open>A decoder that rejects every document, for the examples.\<close>

definition undecodable :: "string \<Rightarrow> error + packageJSON" where
  "undecodable body = Inl (Err ''invalid character'')"

definition dquoted :: "string \<Rightarrow> string" where
  "dquoted s = [CHR 0x22] @ s @ [CHR 0x22]"

definition squoted :: "string \<Rightarrow> string" where
  "squoted s = [CHR 0x27] @ s @ [CHR 0x27]"

text \<open>A list without the repetitions of its elements: each element stays where it
  stands first.\<close>

function first_occurrences :: "'a list \<Rightarrow> 'a list" where
  "first_occurrences [] = []"
| "first_occurrences (x # xs) = x # first_occurrences (removeAll x xs)"
  by pat_completeness auto
termination
  by (relation "measure length") (auto simp: le_imp_less_Suc length_removeAll_less_eq)

text \<open>\<^verbatim>\<open>strings.Cut(s, sep)\<close> for a separator of one byte: the text before the first
  separator and the text after it; the whole text and the empty text when there is
  none.\<close>

fun cut :: "char \<Rightarrow> string \<Rightarrow> string \<times> string" where
  "cut sep [] = ([], [])"
| "cut sep (c # s) =
     (if c = sep then ([], s)
      else (case cut sep s of (before, after) \<Rightarrow> (c # before, after)))"

text \<open>
  \<^verbatim>\<open>url.Parse\<close> on the texts that begin with \<^verbatim>\<open>https://example.com/\<close>, for the examples. As
  \<^verbatim>\<open>url.Parse\<close> does, it cuts the fragment off at the first \<^verbatim>\<open>#\<close>, refuses a control byte,
  cuts the query off at the first \<^verbatim>\<open>?\<close>, and percent-decodes the path into \<open>Path\<close>; the
  query stays as it is written, and a fragment with a wrong escape is refused. Any other
  text is refused here.
\<close>

definition parse_example :: "string \<Rightarrow> error + URL" where
  "parse_example rawURL =
     (case cut CHR ''#'' rawURL of
        (u, frag) \<Rightarrow>
          if list_ex (\<lambda>c. byte c < 0x20 \<or> byte c = 0x7F) u
          then Inl (Err ''invalid control character in URL'')
          else if \<not> HasPrefix u ''https://example.com/''
          then Inl (Err ''not an example URL'')
          else (case cut CHR ''?'' (drop (length ''https://example.com'') u) of
                  (rest, query) \<Rightarrow>
                    (case PathUnescape rest of
                       Inl e \<Rightarrow> Inl e
                     | Inr path \<Rightarrow>
                         if escapes_ok frag
                         then Inr \<lparr>Scheme = ''https'', Host = ''example.com'', Path = path,
                                   RawQuery = query\<rparr>
                         else Inl (Err ''invalid URL escape''))))"

text \<open>The first error in the order in which the results were received.\<close>

definition first_error :: "(nat \<times> 'r \<times> 'e option) list \<Rightarrow> 'e option" where
  "first_error log =
     (case filter (\<lambda>out. snd (snd out) \<noteq> None) log of
        [] \<Rightarrow> None
      | out # _ \<Rightarrow> snd (snd out))"

text \<open>
  What holds of every state of a pool started on \<open>inputs\<close>: each index is in exactly one
  place, in the feeder, with a worker goroutine or among the received; the variables of
  the collecting loop follow the received values; and whatever carries an index carries
  the item of that index or a result of the worker function for it.
\<close>

fun task_index :: "('t, 'r, 'e) task \<Rightarrow> nat list" where
  "task_index Idle = []"
| "task_index (Holding i t) = [i]"
| "task_index (Running i t) = [i]"
| "task_index (Sending i v e) = [i]"

fun task_weight :: "('t, 'r, 'e) task \<Rightarrow> nat" where
  "task_weight Idle = 0"
| "task_weight (Holding i t) = 3"
| "task_weight (Running i t) = 2"
| "task_weight (Sending i v e) = 1"

definition pool_weight :: "('t, 'r, 'e, 's) pool \<Rightarrow> nat" where
  "pool_weight p = 4 * length (inCh p) + sum_list (map task_weight (tasks p))"

definition result_of ::
  "('t \<Rightarrow> 's \<Rightarrow> ('r \<times> 'e option) \<times> 's \<Rightarrow> bool) \<Rightarrow> 't list \<Rightarrow> nat \<Rightarrow> 'r \<Rightarrow> 'e option \<Rightarrow> bool"
where
  "result_of worker inputs i v e =
     (i < length inputs \<and> (\<exists>s s'. worker (inputs ! i) s ((v, e), s')))"

fun task_ok ::
  "('t \<Rightarrow> 's \<Rightarrow> ('r \<times> 'e option) \<times> 's \<Rightarrow> bool) \<Rightarrow> 't list \<Rightarrow> ('t, 'r, 'e) task \<Rightarrow> bool"
where
  "task_ok worker inputs Idle = True"
| "task_ok worker inputs (Holding i t) = (i < length inputs \<and> t = inputs ! i)"
| "task_ok worker inputs (Running i t) = (i < length inputs \<and> t = inputs ! i)"
| "task_ok worker inputs (Sending i v e) = result_of worker inputs i v e"

definition pool_inv ::
  "('t \<Rightarrow> 's \<Rightarrow> ('r \<times> 'e option) \<times> 's \<Rightarrow> bool) \<Rightarrow> nat \<Rightarrow> 't list \<Rightarrow> ('t, 'r, 'e, 's) pool \<Rightarrow> bool"
where
  "pool_inv worker n inputs p =
     (length (tasks p) = n \<and>
      mset (map fst (received p)) + mset (concat (map task_index (tasks p)))
        + mset (map fst (inCh p)) = mset [0..<length inputs] \<and>
      results p = map (\<lambda>out. fst (snd out)) (received p) \<and>
      firstErr p = first_error (received p) \<and>
      list_all (\<lambda>out. result_of worker inputs (fst out) (fst (snd out)) (snd (snd out)))
        (received p) \<and>
      list_all (task_ok worker inputs) (tasks p) \<and>
      list_all (\<lambda>it. fst it < length inputs \<and> snd it = inputs ! fst it) (inCh p))"

text \<open>A worker function that fails on every item, for the examples.\<close>

definition failing_worker :: "string \<Rightarrow> unit \<Rightarrow> (string \<times> error option) \<times> unit \<Rightarrow> bool" where
  "failing_worker t s out = (out = ((t, Some (Err t)), s))"

section \<open>The scan of a regular expression\<close>

lemma rm_length:
  "(b', s', g') \<in> set (rm r (b, s, g)) \<Longrightarrow> length s' \<le> length s"
proof (induction r arbitrary: b s g b' s' g')
  case (Seq r1 r2)
  then show ?case by fastforce
next
  case (Grp i r)
  then show ?case by fastforce
qed (auto split: list.splits if_splits)

text \<open>Every match that the scan reports is the first match at some position.\<close>

lemma find_all_origin:
  "(sk, m, g) \<in> set (find_all r b sk0 s) \<Longrightarrow>
   \<exists>b0 t b' s' sts. rm r (b0, t, []) = (b', s', g) # sts \<and> m = take (length t - length s') t"
proof (induction "length s" arbitrary: s b sk0 rule: less_induct)
  case less
  show ?case
  proof (cases "rm r (b, s, [])")
    case Nil
    with less.prems obtain c t where s: "s = c # t"
      and mem: "(sk, m, g) \<in> set (find_all r False (sk0 @ [c]) t)"
      by (subst (asm) find_all.simps) (auto split: list.splits)
    from less.hyps[OF _ mem] s show ?thesis by simp
  next
    case (Cons st sts)
    obtain b' s' g' where st: "st = (b', s', g')" by (cases st)
    let ?n = "length s - length s'"
    from less.prems Cons st
    have "(sk, m, g) = (sk0, take ?n s, g') \<or>
          (?n = 0 \<and> (\<exists>c t. s = c # t \<and> (sk, m, g) \<in> set (find_all r False [c] t))) \<or>
          (?n \<noteq> 0 \<and> (sk, m, g) \<in> set (find_all r False [] (drop ?n s)))"
      by (subst (asm) find_all.simps) (auto split: list.splits if_splits)
    then show ?thesis
    proof (elim disjE conjE exE)
      assume "(sk, m, g) = (sk0, take ?n s, g')"
      with Cons st show ?thesis by blast
    next
      fix c t assume "s = c # t" "(sk, m, g) \<in> set (find_all r False [c] t)"
      with less.hyps[of t False "[c]"] show ?thesis by simp
    next
      assume n: "?n \<noteq> 0" and mem: "(sk, m, g) \<in> set (find_all r False [] (drop ?n s))"
      from n have "length (drop ?n s) < length s" by simp
      from less.hyps[OF this mem] show ?thesis .
    qed
  qed
qed

subsection \<open>The scan for one character of a class\<close>

lemma find_all_Cls_none:
  "\<forall>x\<in>set s. \<not> p x \<Longrightarrow> find_all (Cls p) b sk s = []"
proof (induction s arbitrary: b sk)
  case Nil
  show ?case by (simp add: find_all.simps)
next
  case (Cons x xs)
  then show ?case by (subst find_all.simps) simp
qed

lemma find_all_Cls_first:
  "\<forall>x\<in>set xs. \<not> p x \<Longrightarrow> p c \<Longrightarrow>
   find_all (Cls p) b sk (xs @ c # t) = (sk @ xs, [c], []) # find_all (Cls p) False [] t"
proof (induction xs arbitrary: b sk)
  case Nil
  then show ?case by (subst find_all.simps) simp
next
  case (Cons x xs)
  then show ?case by (subst find_all.simps) simp
qed

text \<open>The first piece of a split at a class is the text before its first member.\<close>

lemma re_Split_Cls_hd:
  "\<exists>rest. re_Split (Cls p) s = takeWhile (\<lambda>c. \<not> p c) s # rest"
proof (cases "\<forall>x\<in>set s. \<not> p x")
  case True
  then show ?thesis
    by (simp add: re_Split_def find_all_Cls_none takeWhile_eq_all_conv[THEN iffD2])
next
  case False
  then obtain c t where d: "dropWhile (\<lambda>c. \<not> p c) s = c # t"
    by (cases "dropWhile (\<lambda>c. \<not> p c) s") (auto simp: dropWhile_eq_Nil_conv)
  then have pc: "p c" using hd_dropWhile[of "\<lambda>c. \<not> p c" s] by auto
  have s: "s = takeWhile (\<lambda>c. \<not> p c) s @ c # t"
    using takeWhile_dropWhile_id[of "\<lambda>c. \<not> p c" s] d by simp
  have "\<forall>x\<in>set (takeWhile (\<lambda>c. \<not> p c) s). \<not> p x"
    by (auto dest: set_takeWhileD)
  from find_all_Cls_first[OF this pc, of True "[]" t] s
  have "find_all (Cls p) True [] s =
          (takeWhile (\<lambda>c. \<not> p c) s, [c], []) # find_all (Cls p) False [] t"
    by simp
  then show ?thesis by (simp add: re_Split_def)
qed

subsection \<open>Scoped-package tokens\<close>

lemma scoped_match_head:
  assumes "m \<in> set (FindAllString scopedRe content)"
  shows "\<exists>m'. m = CHR ''@'' # m'"
proof -
  from assms obtain sk g where "(sk, m, g) \<in> set (find_all scopedRe True [] content)"
    by (auto simp: FindAllString_def)
  from find_all_origin[OF this] obtain b0 t b' s' sts where
    rm: "rm scopedRe (b0, t, []) = (b', s', g) # sts" and m: "m = take (length t - length s') t"
    by blast
  define rest where "rest = seqs [Plus ident_char True, Lit CHR ''/'', Plus ident_char True]"
  have sc: "scopedRe = Seq (Lit CHR ''@'') rest"
    by (simp add: scopedRe_def rest_def)
  from rm have mem: "(b', s', g) \<in> set (rm (Seq (Lit CHR ''@'') rest) (b0, t, []))"
    by (simp add: sc)
  then obtain xs where t: "t = CHR ''@'' # xs"
    and mem': "(b', s', g) \<in> set (rm rest (False, xs, []))"
    by (auto split: list.splits if_splits)
  from rm_length[OF mem'] have "length s' \<le> length xs" .
  then have "length t - length s' = Suc (length xs - length s')"
    using t by simp
  with m t show ?thesis by simp
qed

text \<open>A scoped token begins with \<^verbatim>\<open>@\<close>, so the test of \<open>scoped_step\<close> never holds.\<close>

lemma scoped_step_insert:
  "m \<in> set (FindAllString scopedRe content) \<Longrightarrow> scoped_step keys m = List.insert m keys"
  by (auto simp: scoped_step_def HasPrefix_def dest!: scoped_match_head)

lemma foldl_scoped_step:
  "set ms \<subseteq> set (FindAllString scopedRe content) \<Longrightarrow>
   set (foldl scoped_step keys ms) = set keys \<union> set ms \<and>
   (distinct keys \<longrightarrow> distinct (foldl scoped_step keys ms))"
proof (induction ms arbitrary: keys)
  case Nil
  show ?case by simp
next
  case (Cons m ms)
  then have m: "scoped_step keys m = List.insert m keys"
    by (auto intro: scoped_step_insert)
  from Cons.prems have "set ms \<subseteq> set (FindAllString scopedRe content)" by simp
  from Cons.IH[OF this, of "List.insert m keys"] show ?case
    by (auto simp: m)
qed

lemma import_step_cases:
  "import_step keys sub =
     (if specifier sub = [] \<or> rejected_specifier (specifier sub) then keys
      else List.insert (specifier sub) keys)"
proof -
  have "(if fst sub \<noteq> [] then fst sub else if snd sub \<noteq> [] then snd sub else []) =
        (if fst sub \<noteq> [] then fst sub else snd sub)"
    by simp
  then have "import_step keys sub =
     (let pkg = specifier sub
      in if pkg = [] then keys
         else if HasPrefix pkg ''.'' \<or> HasPrefix pkg ''/'' then keys
         else if HasPrefix (ToLower pkg) ''http://'' \<or> HasPrefix (ToLower pkg) ''https://''
                 \<or> HasPrefix (ToLower pkg) ''git+'' then keys
         else List.insert pkg keys)"
    unfolding import_step_def specifier_def by (simp only:)
  moreover define a where "a = (HasPrefix (specifier sub) ''.'' \<or> HasPrefix (specifier sub) ''/'')"
  moreover define c where "c = (HasPrefix (ToLower (specifier sub)) ''http://''
      \<or> HasPrefix (ToLower (specifier sub)) ''https://''
      \<or> HasPrefix (ToLower (specifier sub)) ''git+'')"
  moreover have "rejected_specifier (specifier sub) = (a \<or> c)"
    unfolding rejected_specifier_def a_def c_def by blast
  ultimately show ?thesis
    unfolding Let_def by (cases a; cases c; simp)
qed

lemma foldl_import_step:
  "set (foldl import_step keys subs) =
     set keys \<union> {p. \<exists>sub\<in>set subs. p = specifier sub \<and> p \<noteq> [] \<and> \<not> rejected_specifier p} \<and>
   (distinct keys \<longrightarrow> distinct (foldl import_step keys subs))"
proof (induction subs arbitrary: keys)
  case Nil
  show ?case by simp
next
  case (Cons sub subs)
  from Cons.IH[of "import_step keys sub"]
  have 1: "set (foldl import_step (import_step keys sub) subs) =
     set (import_step keys sub) \<union>
       {p. \<exists>sub\<in>set subs. p = specifier sub \<and> p \<noteq> [] \<and> \<not> rejected_specifier p}"
    and 2: "distinct (import_step keys sub) \<longrightarrow>
            distinct (foldl import_step (import_step keys sub) subs)"
    by blast+
  have 3: "set (import_step keys sub) =
     set keys \<union> {p. p = specifier sub \<and> p \<noteq> [] \<and> \<not> rejected_specifier p}"
    by (auto simp: import_step_cases)
  have 4: "distinct keys \<longrightarrow> distinct (import_step keys sub)"
    by (simp add: import_step_cases)
  show ?case
    using 2 4 by (auto simp: 1 3)
qed

lemma scoped_not_rejected:
  assumes "m \<in> set (FindAllString scopedRe content)"
  shows "\<not> rejected_specifier m"
proof -
  from scoped_match_head[OF assms] obtain m' where "m = CHR ''@'' # m'" by blast
  then show ?thesis
    by (simp add: rejected_specifier_def HasPrefix_def byte_def ascii_lower_def)
qed

text \<open>
  C8. The result of import analysis is sorted and free of duplicates, and holds no
  specifier that begins with \<^verbatim>\<open>.\<close> or \<^verbatim>\<open>/\<close> or, whatever the case of its letters, with
  \<^verbatim>\<open>http://\<close>, \<^verbatim>\<open>https://\<close> or \<^verbatim>\<open>git+\<close>: it is the set of the scoped tokens and of the
  trimmed, non-empty specifiers of \<^verbatim>\<open>require\<close> and \<^verbatim>\<open>import\<close> that do not begin so. The text
  \<^verbatim>\<open>import foo from 'lodash'; const bar = require('./local');\<close> gives \<^verbatim>\<open>lodash\<close> alone.
\<close>

theorem extractPackagesFromJS_result:
  "sorted (extractPackagesFromJS content) \<and>
   distinct (extractPackagesFromJS content) \<and>
   (\<forall>p\<in>set (extractPackagesFromJS content). \<not> rejected_specifier p) \<and>
   set (extractPackagesFromJS content) =
     set (FindAllString scopedRe content) \<union>
     {p. \<exists>sub\<in>set (FindAllStringSubmatch importReqRe content).
           p = specifier sub \<and> p \<noteq> [] \<and> \<not> rejected_specifier p}"
proof -
  define ms where "ms = FindAllString scopedRe content"
  define subs where "subs = FindAllStringSubmatch importReqRe content"
  define keys where "keys = foldl scoped_step [] ms"
  define out where "out = foldl import_step keys subs"
  have ex: "extractPackagesFromJS content = sort out"
    by (simp add: extractPackagesFromJS_def out_def keys_def ms_def subs_def)
  have "set ms \<subseteq> set (FindAllString scopedRe content)"
    by (simp add: ms_def)
  from foldl_scoped_step[OF this, of "[]"]
  have k1: "set keys = set ms" and k2: "distinct keys"
    by (simp_all add: keys_def)
  from foldl_import_step[of keys subs]
  have o1: "set out = set keys \<union>
      {p. \<exists>sub\<in>set subs. p = specifier sub \<and> p \<noteq> [] \<and> \<not> rejected_specifier p}"
    and o2: "distinct out"
    using k2 by (simp_all add: out_def)
  have s: "set (sort out) = set ms \<union>
      {p. \<exists>sub\<in>set subs. p = specifier sub \<and> p \<noteq> [] \<and> \<not> rejected_specifier p}"
    by (simp only: set_sort o1 k1)
  have r: "\<forall>p\<in>set (sort out). \<not> rejected_specifier p"
  proof
    fix p assume "p \<in> set (sort out)"
    then have "p \<in> set ms \<or> \<not> rejected_specifier p"
      unfolding s by blast
    then show "\<not> rejected_specifier p"
      using scoped_not_rejected[of p content] by (auto simp: ms_def)
  qed
  have "sorted (sort out)" by (rule sorted_sort)
  moreover have "distinct (sort out)" using o2 by (simp only: distinct_sort)
  ultimately show ?thesis
    unfolding ex using r s unfolding ms_def subs_def by blast
qed

theorem extractPackagesFromJS_result_witness:
  "extractPackagesFromJS
     (''import foo from '' @ squoted ''lodash'' @ ''; const bar = require(''
        @ squoted ''./local'' @ '');'') = [''lodash''] \<and>
   rejected_specifier ''./local'' \<and> \<not> rejected_specifier ''lodash''"
proof -
  let ?text = "''import foo from '' @ squoted ''lodash'' @ ''; const bar = require(''
        @ squoted ''./local'' @ '');''"
  have e: "extractPackagesFromJS ?text = [''lodash'']"
    by code_simp
  have r: "rejected_specifier ''./local''" "\<not> rejected_specifier ''lodash''"
    by code_simp+
  from extractPackagesFromJS_result[of ?text]
  have "\<forall>p\<in>set (extractPackagesFromJS ?text). \<not> rejected_specifier p"
    by (elim conjE)
  with e r show ?thesis by simp
qed

section \<open>Scoped tokens after a dot or a slash\<close>

text \<open>
  C1. A scoped token that stands right after \<^verbatim>\<open>.\<close> or \<^verbatim>\<open>/\<close> in the text is to be left out.
  The test of \<open>scoped_step\<close> looks at the first character of the token itself, which
  is always \<^verbatim>\<open>@\<close>, and not at the character before it: of the text \<^verbatim>\<open>./@scope/pkg\<close> the
  token \<^verbatim>\<open>@scope/pkg\<close> is returned.
\<close>

theorem scoped_after_slash_returned:
  "extractPackagesFromJS ''./@scope/pkg'' = [''@scope/pkg'']"
  by code_simp

section \<open>The requirement list\<close>

lemma req_line_requirement_name:
  "req_line deps ln = deps @ requirement_name ln"
proof -
  obtain rest where
    "re_Split reqSplitRe (TrimSpace ln) =
       takeWhile (\<lambda>c. \<not> req_delim c) (TrimSpace ln) # rest"
    using re_Split_Cls_hd[of req_delim "TrimSpace ln"] by (auto simp: reqSplitRe_def)
  moreover have "TrimSpace ln \<noteq> [] \<Longrightarrow>
      HasPrefix (TrimSpace ln) ''#'' = (hd (TrimSpace ln) = CHR ''#'')"
    by (cases "TrimSpace ln") (simp_all add: HasPrefix_def)
  ultimately show ?thesis
    by (simp add: req_line_def requirement_name_def Let_def)
qed

lemma foldl_req_line:
  "foldl req_line deps lns = deps @ concat (map requirement_name lns)"
  by (induction lns arbitrary: deps) (simp_all add: req_line_requirement_name)

text \<open>
  An indented line is not blank and does not begin with \<^verbatim>\<open>#\<close>, and the text before its
  first delimiter is empty: kept as the words above say, the name of the line
  \<^verbatim>\<open>  flask>=2.0\<close> would be the empty text. The loop trims the line first, and returns
  \<^verbatim>\<open>flask\<close>.
\<close>

theorem requirement_list_indented_line:
  "getDependencies (serving 200 ''  flask>=2.0'') undecodable
     ''https://example.com/requirements.txt'' = Inr ([''flask''], ''python'') \<and>
   claimed_requirement_names ''  flask>=2.0'' = [[]] \<and>
   getDependencies (serving 200 ''  flask>=2.0'') undecodable
     ''https://example.com/requirements.txt'' \<noteq>
     Inr (claimed_requirement_names ''  flask>=2.0'', langPython)"
proof -
  have 1: "getDependencies (serving 200 ''  flask>=2.0'') undecodable
     ''https://example.com/requirements.txt'' = Inr ([''flask''], ''python'')"
    by code_simp
  have 2: "claimed_requirement_names ''  flask>=2.0'' = [[]]"
    by code_simp
  have 3: "getDependencies (serving 200 ''  flask>=2.0'') undecodable
     ''https://example.com/requirements.txt'' \<noteq>
     Inr (claimed_requirement_names ''  flask>=2.0'', langPython)"
    unfolding 1 2 by simp
  from 1 2 3 show ?thesis
    by (intro conjI)
qed

text \<open>
  C9. When the content reaches the last branch of extraction, the result is the list of
  the names of the requirement list, with language python: the content is split into
  lines and each line is trimmed of the white space around it; the lines that are then
  empty or begin with \<^verbatim>\<open>#\<close> are left out; of each other line the text before the first
  delimiter is trimmed and, unless it is empty, kept. The text of the lines
  \<^verbatim>\<open>requests==2.31.0\<close>, \<^verbatim>\<open># comment\<close>, an empty line and \<^verbatim>\<open>flask>=2.0\<close> gives \<^verbatim>\<open>requests\<close>
  and \<^verbatim>\<open>flask\<close>.
\<close>

theorem getDependencies_requirement_list:
  assumes "httpGET net targetURL = Inr (body, status)"
    and "\<not> EqualFold (path_Base targetURL) ''package.json''"
    and "\<not> (looksLikeCodeFile targetURL \<and> extractPackagesFromJS body \<noteq> [])"
  shows "getDependencies net unmarshal targetURL = Inr (requirement_names body, langPython)"
proof -
  have "foldl req_line [] (split_lines body) = requirement_names body"
    by (simp add: requirement_names_def foldl_req_line)
  with assms show ?thesis
    by (auto simp add: getDependencies_def)
qed

theorem getDependencies_requirement_list_witness:
  "getDependencies
     (serving 200 (''requests==2.31.0'' @ [CHR 0x0A] @ ''# comment'' @ [CHR 0x0A, CHR 0x0A]
                   @ ''flask>=2.0'' @ [CHR 0x0A]))
     undecodable ''https://example.com/requirements.txt'' =
   Inr ([''requests'', ''flask''], ''python'')"
proof -
  let ?body = "''requests==2.31.0'' @ [CHR 0x0A] @ ''# comment'' @ [CHR 0x0A, CHR 0x0A]
                   @ ''flask>=2.0'' @ [CHR 0x0A]"
  let ?u = "''https://example.com/requirements.txt''"
  have 1: "httpGET (serving 200 ?body) ?u = Inr (?body, 200)"
    by (simp add: httpGET_def serving_def)
  have 2: "\<not> EqualFold (path_Base ?u) ''package.json''"
    by code_simp
  have 3: "\<not> (looksLikeCodeFile ?u \<and> extractPackagesFromJS ?body \<noteq> [])"
    by code_simp
  have 4: "requirement_names ?body = [''requests'', ''flask'']"
    by code_simp
  show ?thesis
    using getDependencies_requirement_list[OF 1 2 3, of undecodable] 4
    by (simp add: langPython_def)
qed

text \<open>White space outside ASCII is trimmed as well: of the lines \<^verbatim>\<open>foo\<close> with a no-break
  space (U+00A0) before \<^verbatim>\<open>==1\<close>, a no-break space alone, and \<^verbatim>\<open>bar\<close>, the names are \<^verbatim>\<open>foo\<close>
  and \<^verbatim>\<open>bar\<close>.\<close>

lemma requirement_names_no_break_space:
  "requirement_names (''foo'' @ [CHR 0xC2, CHR 0xA0] @ ''==1''
     @ [CHR 0x0A, CHR 0xC2, CHR 0xA0, CHR 0x0A] @ ''bar'') = [''foo'', ''bar'']"
  by code_simp

section \<open>A code file without imports\<close>

text \<open>
  C10. For a URL that passes the test of the code-file suffixes and is not named
  \<^verbatim>\<open>package.json\<close>, when import analysis of the content finds nothing, extraction does
  not return an empty js result: it reads the same content as a requirement list and
  returns those names with language python.
\<close>

theorem getDependencies_code_file_falls_through:
  assumes "httpGET net targetURL = Inr (body, status)"
    and "looksLikeCodeFile targetURL"
    and "\<not> EqualFold (path_Base targetURL) ''package.json''"
    and "extractPackagesFromJS body = []"
  shows "getDependencies net unmarshal targetURL =
           Inr (foldl req_line [] (split_lines body), langPython)
         \<and> foldl req_line [] (split_lines body) = requirement_names body"
  using assms
  by (simp add: getDependencies_def requirement_names_def foldl_req_line)

theorem getDependencies_code_file_falls_through_witness:
  "looksLikeCodeFile ''https://example.com/app.js'' \<and>
   extractPackagesFromJS ''var x = 1;'' = [] \<and>
   getDependencies (serving 200 ''var x = 1;'') undecodable ''https://example.com/app.js'' =
     Inr ([''var''], ''python'')"
proof -
  let ?body = "''var x = 1;''"
  let ?u = "''https://example.com/app.js''"
  have 1: "httpGET (serving 200 ?body) ?u = Inr (?body, 200)"
    by (simp add: httpGET_def serving_def)
  have 2: "looksLikeCodeFile ?u"
    by code_simp
  have 3: "\<not> EqualFold (path_Base ?u) ''package.json''"
    by code_simp
  have 4: "extractPackagesFromJS ?body = []"
    by code_simp
  have 5: "requirement_names ?body = [''var'']"
    by code_simp
  show ?thesis
    using getDependencies_code_file_falls_through[OF 1 2 3 4, of undecodable] 2 4 5
    by (simp add: langPython_def)
qed


section \<open>A manifest URL with a query\<close>

text \<open>The classifier accepts a manifest URL that carries a query.\<close>

lemma filterManifestURLs_query:
  "filterManifestURLs parse_example [''https://example.com/a/Package.json?v=1''] =
     [''https://example.com/a/Package.json?v=1'']"
  by code_simp

text \<open>
  C2. A URL whose last path segment is \<^verbatim>\<open>package.json\<close>, in any case of its letters, is to
  be read as a structured document, also when a query follows the path.
  \<open>getDependencies\<close> compares \<^verbatim>\<open>path.Base\<close> of the whole URL text with \<^verbatim>\<open>package.json\<close>,
  and with a query that base is \<^verbatim>\<open>Package.json?v=1\<close>: the document is read as a
  requirement list instead, its one line becomes a package name, and the language is
  python, whatever the decoder.
\<close>

theorem getDependencies_package_json_query:
  "path_Base ''https://example.com/a/Package.json?v=1'' = ''Package.json?v=1'' \<and>
   getDependencies
     (serving 200 (''{'' @ dquoted ''dependencies'' @ '':{'' @ dquoted ''left-pad'' @ '':''
                   @ dquoted ''1.0.0'' @ ''}}''))
     unmarshal ''https://example.com/a/Package.json?v=1'' =
   Inr ([''{'' @ dquoted ''dependencies'' @ '':{'' @ dquoted ''left-pad'' @ '':''
          @ dquoted ''1.0.0'' @ ''}}''], ''python'')"
proof -
  let ?body = "''{'' @ dquoted ''dependencies'' @ '':{'' @ dquoted ''left-pad'' @ '':''
                   @ dquoted ''1.0.0'' @ ''}}''"
  let ?u = "''https://example.com/a/Package.json?v=1''"
  have 0: "path_Base ?u = ''Package.json?v=1''"
    by code_simp
  have 1: "httpGET (serving 200 ?body) ?u = Inr (?body, 200)"
    by (simp add: httpGET_def serving_def)
  have 2: "\<not> EqualFold (path_Base ?u) ''package.json''"
    by code_simp
  have 3: "\<not> looksLikeCodeFile ?u"
    by code_simp
  have 4: "foldl req_line [] (split_lines ?body) = [?body]"
    by code_simp
  show ?thesis
    using 0 1 2 3 4 by (simp add: getDependencies_def langPython_def)
qed

text \<open>Without a query the document goes to the decoder, and its error is the error of
  the extraction.\<close>

lemma getDependencies_package_json:
  assumes "httpGET net targetURL = Inr (body, status)"
    and "EqualFold (path_Base targetURL) ''package.json''"
  shows "getDependencies net unmarshal targetURL =
     (case unmarshal body of
        Inl e \<Rightarrow> Inl e
      | Inr pj \<Rightarrow> Inr (map fst (Dependencies pj) @ map fst (DevDependencies pj), langJS))"
  using assms by (simp add: getDependencies_def)

section \<open>The registry check\<close>

lemma isUnclaimed_fst:
  "fst (isUnclaimed net pkg lang headCache) =
     (case probed_status net (lookupURL lang pkg) headCache of
        None \<Rightarrow> (False, 0)
      | Some st \<Rightarrow> (st \<noteq> 200 \<and> st \<noteq> 302, st))"
  by (simp add: isUnclaimed_def probed_status_def lookupURL_def httpHEAD_def
        unclaimed_status_def Let_def split: option.splits sum.splits)

text \<open>
  C3. The registry check builds the lookup URL of the language, the npm one for js and
  the package-index one otherwise. With the status that is cached for that URL, or else
  probed, it returns \<open>(True, status)\<close> exactly when the status is neither 200 nor 302 and
  \<open>(False, status)\<close> when it is one of them; when the probe fails it returns
  \<open>(False, 0)\<close>. So a status 404 gives \<open>(True, 404)\<close>, and 200 and 302 give
  \<open>(False, 200)\<close> and \<open>(False, 302)\<close>, for both languages.
\<close>

theorem isUnclaimed_status:
  "lookupURL langJS pkg = ''https://registry.npmjs.org/'' @ pkg @ ''/'' \<and>
   (lang \<noteq> langJS \<longrightarrow> lookupURL lang pkg = ''https://pypi.org/project/'' @ pkg @ ''/'') \<and>
   (probed_status net (lookupURL lang pkg) headCache = None \<longrightarrow>
      fst (isUnclaimed net pkg lang headCache) = (False, 0)) \<and>
   (\<forall>st. probed_status net (lookupURL lang pkg) headCache = Some st \<longrightarrow>
      fst (isUnclaimed net pkg lang headCache) = (st \<noteq> 200 \<and> st \<noteq> 302, st)) \<and>
   (probed_status net (lookupURL lang pkg) headCache = Some 404 \<longrightarrow>
      fst (isUnclaimed net pkg lang headCache) = (True, 404)) \<and>
   (probed_status net (lookupURL lang pkg) headCache = Some 200 \<longrightarrow>
      fst (isUnclaimed net pkg lang headCache) = (False, 200)) \<and>
   (probed_status net (lookupURL lang pkg) headCache = Some 302 \<longrightarrow>
      fst (isUnclaimed net pkg lang headCache) = (False, 302))"
  by (simp add: isUnclaimed_fst lookupURL_def npmURL_def pypiURL_def)

theorem isUnclaimed_status_witness:
  "fst (isUnclaimed (serving 404 []) ''left-pad'' langJS Map.empty) = (True, 404) \<and>
   fst (isUnclaimed (serving 404 []) ''left-pad'' langPython Map.empty) = (True, 404) \<and>
   fst (isUnclaimed (serving 200 []) ''left-pad'' langJS Map.empty) = (False, 200) \<and>
   fst (isUnclaimed (serving 302 []) ''left-pad'' langPython Map.empty) = (False, 302) \<and>
   fst (isUnclaimed unreachable ''left-pad'' langJS Map.empty) = (False, 0) \<and>
   fst (isUnclaimed unreachable ''left-pad'' langJS
          [''https://registry.npmjs.org/left-pad/'' \<mapsto> 404]) = (True, 404)"
proof -
  have p: "probed_status (serving st []) u Map.empty = Some st"
    "probed_status unreachable u Map.empty = None"
    "probed_status unreachable u [u \<mapsto> st] = Some st" for st u
    by (simp_all add: probed_status_def serving_def unreachable_def)
  have l: "lookupURL langJS ''left-pad'' = ''https://registry.npmjs.org/left-pad/''"
    by (simp add: lookupURL_def npmURL_def)
  show ?thesis
    using isUnclaimed_status[of "''left-pad''" langJS "serving 404 []" Map.empty]
      isUnclaimed_status[of "''left-pad''" langPython "serving 404 []" Map.empty]
      isUnclaimed_status[of "''left-pad''" langJS "serving 200 []" Map.empty]
      isUnclaimed_status[of "''left-pad''" langPython "serving 302 []" Map.empty]
      isUnclaimed_status[of "''left-pad''" langJS unreachable Map.empty]
      isUnclaimed_status[of "''left-pad''" langJS unreachable
         "[''https://registry.npmjs.org/left-pad/'' \<mapsto> 404]"]
    by (simp add: p l)
qed

section \<open>The classifier\<close>

lemma first_occurrences_set:
  "set (first_occurrences xs) = set xs"
  by (induction xs rule: first_occurrences.induct) auto

lemma first_occurrences_distinct:
  "distinct (first_occurrences xs)"
  by (induction xs rule: first_occurrences.induct) (auto simp: first_occurrences_set)

lemma classify_line_accepted:
  "classify_line parse (seen, out) raw =
     (if accepted parse (TrimSpace raw) \<and> TrimSpace raw \<notin> seen
      then (insert (TrimSpace raw) seen, out @ [TrimSpace raw])
      else (seen, out))"
proof (cases "parse (TrimSpace raw)")
  case (Inl e)
  then show ?thesis
    by (simp add: classify_line_def accepted_def Let_def)
next
  case (Inr p)
  then show ?thesis
    by (auto simp add: classify_line_def accepted_def unesc_path_query_def Let_def)
qed

lemma foldl_classify_line:
  "foldl (classify_line parse) (set out, out) lines =
     (set out \<union> {u \<in> set (map TrimSpace lines). accepted parse u},
      out @ first_occurrences
              (filter (\<lambda>u. u \<notin> set out) (filter (accepted parse) (map TrimSpace lines))))"
proof (induction lines arbitrary: out)
  case Nil
  show ?case by simp
next
  case (Cons raw lines)
  let ?u = "TrimSpace raw"
  show ?case
  proof (cases "accepted parse ?u \<and> ?u \<notin> set out")
    case True
    then have step: "classify_line parse (set out, out) raw = (set (out @ [?u]), out @ [?u])"
      by (simp add: classify_line_accepted)
    have rm: "removeAll ?u (filter (\<lambda>u. u \<notin> set out) xs) =
                filter (\<lambda>u. u \<notin> set (out @ [?u])) xs" for xs
      by (induction xs) auto
    have "filter (\<lambda>u. u \<notin> set out) (filter (accepted parse) (map TrimSpace (raw # lines))) =
            ?u # filter (\<lambda>u. u \<notin> set out) (filter (accepted parse) (map TrimSpace lines))"
      using True by simp
    then have "first_occurrences
        (filter (\<lambda>u. u \<notin> set out) (filter (accepted parse) (map TrimSpace (raw # lines)))) =
        ?u # first_occurrences (filter (\<lambda>u. u \<notin> set (out @ [?u]))
               (filter (accepted parse) (map TrimSpace lines)))"
      by (simp only: first_occurrences.simps rm)
    moreover have "set (out @ [?u]) \<union> {u \<in> set (map TrimSpace lines). accepted parse u} =
        set out \<union> {u \<in> set (map TrimSpace (raw # lines)). accepted parse u}"
      using True by auto
    ultimately show ?thesis
      unfolding foldl_Cons step Cons.IH by simp
  next
    case False
    then have step: "classify_line parse (set out, out) raw = (set out, out)"
      by (simp add: classify_line_accepted)
    show ?thesis
      unfolding foldl_Cons step Cons.IH using False by auto
  qed
qed

lemma filterManifestURLs_first_occurrences:
  "filterManifestURLs parse lines =
     first_occurrences (filter (accepted parse) (map TrimSpace lines))"
  using foldl_classify_line[of parse "[]" lines]
  by (simp add: filterManifestURLs_def)


text \<open>So a trimmed line is in the output exactly when it passes the test.\<close>

lemma filterManifestURLs_set:
  "set (filterManifestURLs parse lines) = {u \<in> set (map TrimSpace lines). accepted parse u}"
  unfolding filterManifestURLs_first_occurrences first_occurrences_set by auto

text \<open>
  C6. A line is to be accepted when its percent-decoded path and query holds a manifest
  name as a whole path segment or ends with a code suffix, and dropped otherwise. The
  path is decoded twice: \<^verbatim>\<open>url.Parse\<close> has decoded \<open>Path\<close>, and the loop passes it to
  \<^verbatim>\<open>url.PathUnescape\<close> again. The URL \<^verbatim>\<open>https://example.com/100%25/package.json\<close> has the
  decoded path \<^verbatim>\<open>/100%/package.json\<close>, where \<^verbatim>\<open>package.json\<close> is a whole segment; the second
  decoding fails on it, the text that is tested is empty, and the URL is dropped. The URL
  \<^verbatim>\<open>https://example.com/a%252Fsetup.py\<close> has the decoded path \<^verbatim>\<open>/a%2Fsetup.py\<close>, with no manifest
  name as a whole segment and no code suffix; the second decoding makes \<^verbatim>\<open>/a/setup.py\<close> of
  it, and the URL is accepted.
\<close>

theorem filterManifestURLs_decodes_twice:
  "parse_example ''https://example.com/100%25/package.json'' =
     Inr \<lparr>Scheme = ''https'', Host = ''example.com'', Path = ''/100%/package.json'',
          RawQuery = []\<rparr> \<and>
   MatchString manifestRe ''/100%/package.json'' \<and>
   PathUnescape ''/100%/package.json'' = Inl (Err ''invalid URL escape'') \<and>
   filterManifestURLs parse_example [''https://example.com/100%25/package.json''] = [] \<and>
   parse_example ''https://example.com/a%252Fsetup.py'' =
     Inr \<lparr>Scheme = ''https'', Host = ''example.com'', Path = ''/a%2Fsetup.py'',
          RawQuery = []\<rparr> \<and>
   \<not> MatchString manifestRe ''/a%2Fsetup.py'' \<and>
   \<not> looksLikeCodeFile ''/a%2Fsetup.py'' \<and>
   PathUnescape ''/a%2Fsetup.py'' = Inr ''/a/setup.py'' \<and>
   filterManifestURLs parse_example [''https://example.com/a%252Fsetup.py''] =
     [''https://example.com/a%252Fsetup.py'']"
proof -
  have 1: "parse_example ''https://example.com/100%25/package.json'' =
     Inr \<lparr>Scheme = ''https'', Host = ''example.com'', Path = ''/100%/package.json'',
          RawQuery = []\<rparr>"
    by code_simp
  have 2: "MatchString manifestRe ''/100%/package.json''"
    by code_simp
  have 3: "PathUnescape ''/100%/package.json'' = Inl (Err ''invalid URL escape'')"
    by code_simp
  have 4: "filterManifestURLs parse_example [''https://example.com/100%25/package.json''] = []"
    by code_simp
  have 5: "parse_example ''https://example.com/a%252Fsetup.py'' =
     Inr \<lparr>Scheme = ''https'', Host = ''example.com'', Path = ''/a%2Fsetup.py'',
          RawQuery = []\<rparr>"
    by code_simp
  have 6: "\<not> MatchString manifestRe ''/a%2Fsetup.py''"
    by code_simp
  have 7: "\<not> looksLikeCodeFile ''/a%2Fsetup.py''"
    by code_simp
  have 8: "PathUnescape ''/a%2Fsetup.py'' = Inr ''/a/setup.py''"
    by code_simp
  have 9: "filterManifestURLs parse_example [''https://example.com/a%252Fsetup.py''] =
     [''https://example.com/a%252Fsetup.py'']"
    by code_simp
  from 1 2 3 4 5 6 7 8 9 show ?thesis
    by (intro conjI)
qed

lemma first_occurrences_append:
  "first_occurrences (xs @ ys) =
     first_occurrences xs @ first_occurrences (filter (\<lambda>y. y \<notin> set xs) ys)"
proof (induction xs arbitrary: ys rule: first_occurrences.induct)
  case 1
  show ?case by simp
next
  case (2 x xs)
  have f: "filter (\<lambda>y. y \<notin> set (removeAll x xs)) (removeAll x ys) =
             removeAll x (filter (\<lambda>y. y \<notin> set (x # xs)) ys)"
    by (induction ys) auto
  have g: "filter (\<lambda>y. y \<notin> set (x # xs)) ys =
             removeAll x (filter (\<lambda>y. y \<notin> set (x # xs)) ys)"
    by (induction ys) auto
  have "first_occurrences ((x # xs) @ ys) = x # first_occurrences (removeAll x xs @ removeAll x ys)"
    by simp
  also have "\<dots> = x # first_occurrences (removeAll x xs) @
      first_occurrences (filter (\<lambda>y. y \<notin> set (removeAll x xs)) (removeAll x ys))"
    by (simp only: "2.IH"[of "removeAll x ys"] append_Cons)
  also have "\<dots> = first_occurrences (x # xs) @
      first_occurrences (filter (\<lambda>y. y \<notin> set (x # xs)) ys)"
    unfolding f g[symmetric] by simp
  finally show ?case .
qed

lemma distinct_count_list_1:
  "distinct xs \<Longrightarrow> x \<in> set xs \<Longrightarrow> count_list xs x = 1"
  by (induction xs) auto

text \<open>
  C7. The output of the classifier has no element twice: it is the list of the accepted
  trimmed lines in which each one stands once, where it stands first. So of two or more
  equal accepted lines exactly one occurrence is in the output, and a line that is first
  seen at index \<open>i\<close> stands in the output after the accepted lines seen before \<open>i\<close>, and
  before all others.
\<close>

theorem filterManifestURLs_first_seen:
  "distinct (filterManifestURLs parse lines) \<and>
   filterManifestURLs parse lines =
     first_occurrences (filter (accepted parse) (map TrimSpace lines)) \<and>
   (\<forall>u. accepted parse u \<and> u \<in> set (map TrimSpace lines) \<longrightarrow>
        count_list (filterManifestURLs parse lines) u = 1) \<and>
   (\<forall>i<length lines.
        accepted parse (TrimSpace (lines ! i)) \<and>
        TrimSpace (lines ! i) \<notin> set (map TrimSpace (take i lines)) \<longrightarrow>
        filterManifestURLs parse lines !
          card {v \<in> set (map TrimSpace (take i lines)). accepted parse v} = TrimSpace (lines ! i))"
proof -
  let ?out = "filterManifestURLs parse lines"
  have d: "distinct ?out"
    unfolding filterManifestURLs_first_occurrences by (rule first_occurrences_distinct)
  have c: "count_list ?out u = 1" if "accepted parse u" "u \<in> set (map TrimSpace lines)" for u
  proof -
    from that have "u \<in> set ?out"
      unfolding filterManifestURLs_first_occurrences first_occurrences_set by simp
    with d show ?thesis by (rule distinct_count_list_1)
  qed
  have p: "?out ! card {v \<in> set (map TrimSpace (take i lines)). accepted parse v}
             = TrimSpace (lines ! i)"
    if i: "i < length lines" and a: "accepted parse (TrimSpace (lines ! i))"
      and n: "TrimSpace (lines ! i) \<notin> set (map TrimSpace (take i lines))" for i
  proof -
    let ?xs = "filter (accepted parse) (map TrimSpace (take i lines))"
    let ?ys = "filter (accepted parse) (map TrimSpace (drop (Suc i) lines))"
    let ?x = "TrimSpace (lines ! i)"
    from i have "lines = take i lines @ lines ! i # drop (Suc i) lines"
      by (simp add: id_take_nth_drop)
    then have "filter (accepted parse) (map TrimSpace lines) =
        filter (accepted parse) (map TrimSpace (take i lines @ lines ! i # drop (Suc i) lines))"
      by simp
    also have "\<dots> = ?xs @ ?x # ?ys"
      using a by simp
    finally have "?out = first_occurrences (?xs @ ?x # ?ys)"
      unfolding filterManifestURLs_first_occurrences by simp
    also have "\<dots> = first_occurrences ?xs @
        first_occurrences (filter (\<lambda>y. y \<notin> set ?xs) (?x # ?ys))"
      by (rule first_occurrences_append)
    also have "filter (\<lambda>y. y \<notin> set ?xs) (?x # ?ys) = ?x # filter (\<lambda>y. y \<notin> set ?xs) ?ys"
      using n by simp
    finally have o: "?out = first_occurrences ?xs @
        ?x # first_occurrences (removeAll ?x (filter (\<lambda>y. y \<notin> set ?xs) ?ys))"
      by simp
    have "length (first_occurrences ?xs) = card (set (first_occurrences ?xs))"
      by (simp add: distinct_card first_occurrences_distinct)
    also have "set (first_occurrences ?xs) =
        {v \<in> set (map TrimSpace (take i lines)). accepted parse v}"
      unfolding first_occurrences_set by auto
    finally have "length (first_occurrences ?xs) =
        card {v \<in> set (map TrimSpace (take i lines)). accepted parse v}" .
    then show ?thesis
      by (subst o) (simp add: nth_append)
  qed
  show ?thesis
    using d c p filterManifestURLs_first_occurrences[of parse lines] by blast
qed

theorem filterManifestURLs_first_seen_witness:
  "filterManifestURLs parse_example
     [''x'', ''https://example.com/a/Package.json?v=1'', ''y'',
      '' https://example.com/a/Package.json?v=1''] =
     [''https://example.com/a/Package.json?v=1''] \<and>
   count_list (filterManifestURLs parse_example
     [''x'', ''https://example.com/a/Package.json?v=1'', ''y'',
      '' https://example.com/a/Package.json?v=1''])
     ''https://example.com/a/Package.json?v=1'' = 1"
proof -
  let ?u = "''https://example.com/a/Package.json?v=1''"
  let ?lines = "[''x'', ?u, ''y'', '' https://example.com/a/Package.json?v=1'']"
  have e: "filterManifestURLs parse_example ?lines = [?u]"
    by code_simp
  from filterManifestURLs_first_seen[of parse_example ?lines]
  have "distinct (filterManifestURLs parse_example ?lines)"
    by (elim conjE)
  with e show ?thesis by simp
qed

section \<open>Runs of the worker pool\<close>

lemma pool_step_weight:
  "pool_step worker c p p' \<Longrightarrow> pool_weight p' < pool_weight p"
  by (induction rule: pool_step.induct) (simp_all add: pool_weight_def)

lemma pool_step_wf:
  "wf {(p', p). pool_step worker c p p'}"
  by (rule wf_subset[OF wf_measure[of pool_weight]]) (auto dest: pool_step_weight)


lemma first_error_append:
  "first_error (log @ [out]) =
     (if first_error log = None then snd (snd out) else first_error log)"
proof (cases "filter (\<lambda>out. snd (snd out) \<noteq> None) log")
  case Nil
  then show ?thesis by (simp add: first_error_def)
next
  case (Cons o' os)
  then have "o' \<in> set (filter (\<lambda>out. snd (snd out) \<noteq> None) log)" by simp
  then have "snd (snd o') \<noteq> None" by simp
  with Cons show ?thesis by (auto simp add: first_error_def)
qed

lemma idle_task_index:
  "list_all (\<lambda>w. w = Idle) ts \<Longrightarrow> concat (map task_index ts) = []"
  by (induction ts) simp_all

lemma pool_start_inv:
  "pool_inv worker (pool_size c) inputs (pool_start c inputs s)"
proof -
  have 1: "concat (map task_index (replicate n Idle)) = []" for n
    by (rule idle_task_index) (simp add: list_all_iff)
  have 2: "list_all (task_ok worker inputs) (replicate n Idle)" for n
    by (induction n) simp_all
  have 3: "list_all (\<lambda>it. fst it < length inputs \<and> snd it = inputs ! fst it)
             (zip [0..<length inputs] inputs)"
    by (auto simp: list_all_iff in_set_zip)
  show ?thesis
    by (simp add: pool_inv_def pool_start_def 1 2 3 first_error_def)
qed

lemma pool_step_inv:
  assumes "pool_step worker c p p'" and "pool_inv worker n inputs p"
  shows "pool_inv worker n inputs p'"
  using assms
proof (induction rule: pool_step.induct)
  case (recv p i t rest pre post)
  then show ?case by (simp add: pool_inv_def)
next
  case (acquire p pre i t post)
  then show ?case by (simp add: pool_inv_def)
next
  case (call p pre i t post v e s')
  then have "result_of worker inputs i v e"
    by (auto simp: pool_inv_def result_of_def)
  with call show ?case by (simp add: pool_inv_def)
next
  case (send p pre i v e post)
  then show ?case
    by (simp add: pool_inv_def first_error_append)
qed

lemma pool_steps_inv:
  assumes "(pool_step worker c)\<^sup>*\<^sup>* p q" and "pool_inv worker n inputs p"
  shows "pool_inv worker n inputs q"
  using assms by (induction rule: rtranclp_induct) (auto intro: pool_step_inv)

lemma pool_reachable_inv:
  "(pool_step worker k)\<^sup>*\<^sup>* (pool_start c inputs s) p \<Longrightarrow>
   pool_inv worker (pool_size c) inputs p"
  by (rule pool_steps_inv[OF _ pool_start_inv])

text \<open>What a finished pool holds.\<close>

lemma pool_done_received:
  assumes "pool_inv worker n inputs p" and "pool_done p"
  shows "mset (map fst (received p)) = mset [0..<length inputs]"
    and "length (received p) = length inputs"
proof -
  from assms(2) have "list_all (\<lambda>w. w = Idle) (tasks p)"
    by (simp add: pool_done_def)
  then have t: "concat (map task_index (tasks p)) = []"
    by (rule idle_task_index)
  from assms(2) have i: "inCh p = []"
    by (simp add: pool_done_def)
  from assms(1) have "mset (map fst (received p)) + mset (concat (map task_index (tasks p)))
        + mset (map fst (inCh p)) = mset [0..<length inputs]"
    unfolding pool_inv_def by (elim conjE)
  then show m: "mset (map fst (received p)) = mset [0..<length inputs]"
    unfolding t i by simp
  from arg_cong[OF m, of size] show "length (received p) = length inputs"
    by simp
qed

lemma first_error_all_fail:
  assumes "log \<noteq> []" and "list_all (\<lambda>out. snd (snd out) \<noteq> None) log"
  shows "first_error log \<noteq> None"
proof -
  from assms(2) have "filter (\<lambda>out. snd (snd out) \<noteq> None) log = log"
    by (simp add: list_all_iff)
  with assms show ?thesis
    by (cases log) (simp_all add: first_error_def)
qed


text \<open>A pool that is not finished can take a step: no goroutine waits forever.\<close>

lemma pool_progress:
  assumes total: "\<forall>t s. \<exists>out. worker t s out"
    and len: "length (tasks p) = n" and n: "0 < n"
    and nd: "\<not> pool_done p"
  shows "\<exists>p'. pool_step worker n p p'"
proof -
  consider
    (sending) i v e where "Sending i v e \<in> set (tasks p)"
  | (running) i t where "Running i t \<in> set (tasks p)"
  | (holding) i t where "Holding i t \<in> set (tasks p)" "\<forall>w\<in>set (tasks p). \<not> is_running w"
  | (idle) "\<forall>w\<in>set (tasks p). w = Idle"
  proof (cases "\<forall>w\<in>set (tasks p). w = Idle")
    case True
    then show ?thesis by (rule idle)
  next
    case False
    then obtain w where w: "w \<in> set (tasks p)" "w \<noteq> Idle" by blast
    show ?thesis
    proof (cases "\<exists>w\<in>set (tasks p). is_running w")
      case True
      then obtain w' where w': "w' \<in> set (tasks p)" "is_running w'" by blast
      from w'(2) obtain i t where "w' = Running i t" by (cases w') auto
      with w'(1) show ?thesis by (auto intro: running)
    next
      case False
      then have nr: "\<forall>w\<in>set (tasks p). \<not> is_running w" by blast
      show ?thesis
      proof (cases w)
        case Idle
        with w(2) show ?thesis by simp
      next
        case (Holding i t)
        with w(1) nr show ?thesis by (auto intro: holding)
      next
        case (Running i t)
        with w(1) show ?thesis by (auto intro: running)
      next
        case (Sending i v e)
        with w(1) show ?thesis by (auto intro: sending)
      qed
    qed
  qed
  then show ?thesis
  proof cases
    case sending
    then obtain pre post where "tasks p = pre @ Sending i v e # post"
      by (auto dest: split_list)
    then show ?thesis by (blast intro: pool_step.send)
  next
    case running
    then obtain pre post where t: "tasks p = pre @ Running i t # post"
      by (auto dest: split_list)
    from total obtain out where "worker t (shared p) out" by blast
    then obtain v e s' where "worker t (shared p) ((v, e), s')"
      by (cases out) auto
    with t show ?thesis by (blast intro: pool_step.call)
  next
    case holding
    then obtain pre post where t: "tasks p = pre @ Holding i t # post"
      by (auto dest: split_list)
    from holding(2) have "filter is_running (tasks p) = []"
      by (simp add: filter_empty_conv)
    then have "length (filter is_running (tasks p)) < n"
      using n by simp
    with t show ?thesis by (blast intro: pool_step.acquire)
  next
    case idle
    with nd have "inCh p \<noteq> []"
      by (simp add: pool_done_def list_all_iff)
    then obtain i t rest where i: "inCh p = (i, t) # rest"
      by (cases "inCh p") auto
    from len n obtain w ws where "tasks p = w # ws"
      by (cases "tasks p") auto
    with idle have "tasks p = [] @ Idle # ws" by simp
    with i show ?thesis by (blast intro: pool_step.recv)
  qed
qed

lemma pool_step_length:
  "pool_step worker c p p' \<Longrightarrow> length (tasks p') = length (tasks p)"
  by (induction rule: pool_step.induct) simp_all

text \<open>So every pool runs to its end.\<close>

lemma pool_finishes:
  assumes total: "\<forall>t s. \<exists>out. worker t s out" and n: "0 < n"
  shows "length (tasks p) = n \<Longrightarrow> \<exists>q. (pool_step worker n)\<^sup>*\<^sup>* p q \<and> pool_done q"
proof (induction p rule: wf_induct_rule[OF pool_step_wf[of worker n]])
  case (1 p)
  show ?case
  proof (cases "pool_done p")
    case True
    then show ?thesis by blast
  next
    case False
    from pool_progress[OF total "1.prems" n False]
    obtain p' where s: "pool_step worker n p p'" by blast
    then have "length (tasks p') = n"
      using "1.prems" by (simp add: pool_step_length)
    with "1.IH"[of p'] s obtain q where "(pool_step worker n)\<^sup>*\<^sup>* p' q" "pool_done q"
      by blast
    with s show ?thesis
      by (blast intro: converse_rtranclp_into_rtranclp)
  qed
qed

lemma pool_size_pos: "0 < pool_size c"
  by (simp add: pool_size_def)

lemma runWorkers_total:
  assumes "\<forall>t s. \<exists>out. worker t s out"
  shows "\<exists>out. runWorkers worker inputs c s out"
proof -
  have "length (tasks (pool_start c inputs s :: ('a, 'c, 'd, 'b) pool)) = pool_size c"
    by (simp add: pool_start_def)
  from pool_finishes[OF assms pool_size_pos this]
  obtain q where "(pool_step worker (pool_size c))\<^sup>*\<^sup>* (pool_start c inputs s) q" "pool_done q"
    by blast
  then show ?thesis
    by (blast intro: runWorkers.intros)
qed


lemma pool_done_outcome:
  assumes run: "(pool_step worker (pool_size concurrency))\<^sup>*\<^sup>* (pool_start concurrency inputs s) p"
    and d: "pool_done p"
  shows "length (results p) = length inputs"
    and "results p = map (\<lambda>out. fst (snd out)) (received p)"
    and "mset (map fst (received p)) = mset [0..<length inputs]"
    and "list_all (\<lambda>out. result_of worker inputs (fst out) (fst (snd out)) (snd (snd out)))
          (received p)"
    and "firstErr p = first_error (received p)"
    and "inputs \<noteq> [] \<and> (\<forall>t s v e s'. worker t s ((v, e), s') \<longrightarrow> e \<noteq> None)
           \<longrightarrow> firstErr p \<noteq> None"
proof -
  from run have inv: "pool_inv worker (pool_size concurrency) inputs p"
    by (rule pool_reachable_inv)
  from inv have r: "results p = map (\<lambda>out. fst (snd out)) (received p)"
    and f: "firstErr p = first_error (received p)"
    and l: "list_all (\<lambda>out. result_of worker inputs (fst out) (fst (snd out)) (snd (snd out)))
          (received p)"
    unfolding pool_inv_def by blast+
  show "results p = map (\<lambda>out. fst (snd out)) (received p)" by (rule r)
  show "firstErr p = first_error (received p)" by (rule f)
  show "list_all (\<lambda>out. result_of worker inputs (fst out) (fst (snd out)) (snd (snd out)))
          (received p)" by (rule l)
  show "mset (map fst (received p)) = mset [0..<length inputs]"
    by (rule pool_done_received(1)[OF inv d])
  show "length (results p) = length inputs"
    unfolding r using pool_done_received(2)[OF inv d] by simp
  show "inputs \<noteq> [] \<and> (\<forall>t s v e s'. worker t s ((v, e), s') \<longrightarrow> e \<noteq> None)
           \<longrightarrow> firstErr p \<noteq> None"
  proof
    assume a: "inputs \<noteq> [] \<and> (\<forall>t s v e s'. worker t s ((v, e), s') \<longrightarrow> e \<noteq> None)"
    from a pool_done_received(2)[OF inv d] have "received p \<noteq> []" by auto
    moreover from l a have "list_all (\<lambda>out. snd (snd out) \<noteq> None) (received p)"
      unfolding list_all_iff result_of_def by blast
    ultimately show "firstErr p \<noteq> None"
      unfolding f by (rule first_error_all_fail)
  qed
qed

text \<open>
  C4. Whatever \<open>runWorkers\<close> returns for \<open>N\<close> items, with any worker function and whatever
  number of invocations fail, is a list of exactly \<open>N\<close> results and an error: the results
  are those of the worker function for the items, each index once, in the order of
  completion, and the error is the first error in that order. When there is an item and
  every invocation fails, the error is not \<^verbatim>\<open>nil\<close>. The same holds of the variables of the
  collecting loop in every finished state of the pool. When every invocation of the
  worker function returns, \<open>runWorkers\<close> does return: an unfinished pool can take a step
  and no run goes on forever.
\<close>

theorem runWorkers_results:
  "(\<forall>rs fe s'. runWorkers worker inputs concurrency s ((rs, fe), s') \<longrightarrow>
        length rs = length inputs \<and>
        (\<exists>log. rs = map (\<lambda>out. fst (snd out)) log \<and>
               mset (map fst log) = mset [0..<length inputs] \<and>
               list_all (\<lambda>out. result_of worker inputs (fst out) (fst (snd out)) (snd (snd out)))
                 log \<and>
               fe = first_error log) \<and>
        (inputs \<noteq> [] \<and> (\<forall>t s v e s'. worker t s ((v, e), s') \<longrightarrow> e \<noteq> None)
           \<longrightarrow> fe \<noteq> None)) \<and>
   (\<forall>p. (pool_step worker (pool_size concurrency))\<^sup>*\<^sup>* (pool_start concurrency inputs s) p
        \<and> pool_done p \<longrightarrow>
        length (results p) = length inputs \<and>
        results p = map (\<lambda>out. fst (snd out)) (received p) \<and>
        mset (map fst (received p)) = mset [0..<length inputs] \<and>
        list_all (\<lambda>out. result_of worker inputs (fst out) (fst (snd out)) (snd (snd out)))
          (received p) \<and>
        firstErr p = first_error (received p) \<and>
        (inputs \<noteq> [] \<and> (\<forall>t s v e s'. worker t s ((v, e), s') \<longrightarrow> e \<noteq> None)
           \<longrightarrow> firstErr p \<noteq> None)) \<and>
   ((\<forall>t s. \<exists>out. worker t s out) \<longrightarrow>
      (\<exists>rs fe s'. runWorkers worker inputs concurrency s ((rs, fe), s')) \<and>
      wf {(p', p). pool_step worker (pool_size concurrency) p p'} \<and>
      (\<forall>p. (pool_step worker (pool_size concurrency))\<^sup>*\<^sup>* (pool_start concurrency inputs s) p
            \<and> \<not> pool_done p \<longrightarrow> (\<exists>p'. pool_step worker (pool_size concurrency) p p')))"
proof -
  have ret: "length rs = length inputs \<and>
        (\<exists>log. rs = map (\<lambda>out. fst (snd out)) log \<and>
               mset (map fst log) = mset [0..<length inputs] \<and>
               list_all (\<lambda>out. result_of worker inputs (fst out) (fst (snd out)) (snd (snd out)))
                 log \<and>
               fe = first_error log) \<and>
        (inputs \<noteq> [] \<and> (\<forall>t s v e s'. worker t s ((v, e), s') \<longrightarrow> e \<noteq> None)
           \<longrightarrow> fe \<noteq> None)"
    if "runWorkers worker inputs concurrency s ((rs, fe), s')" for rs fe s'
    using that
  proof (cases rule: runWorkers.cases)
    case (1 p)
    note o = pool_done_outcome[OF 1(4) 1(5)]
    have "\<exists>log. results p = map (\<lambda>out. fst (snd out)) log \<and>
               mset (map fst log) = mset [0..<length inputs] \<and>
               list_all (\<lambda>out. result_of worker inputs (fst out) (fst (snd out)) (snd (snd out)))
                 log \<and>
               firstErr p = first_error log"
      using o(2) o(3) o(4) o(5) by (intro exI[of _ "received p"] conjI)
    with o(1) o(6) show ?thesis
      unfolding 1(1) 1(2) by (intro conjI)
  qed
  have fin: "length (results p) = length inputs \<and>
        results p = map (\<lambda>out. fst (snd out)) (received p) \<and>
        mset (map fst (received p)) = mset [0..<length inputs] \<and>
        list_all (\<lambda>out. result_of worker inputs (fst out) (fst (snd out)) (snd (snd out)))
          (received p) \<and>
        firstErr p = first_error (received p) \<and>
        (inputs \<noteq> [] \<and> (\<forall>t s v e s'. worker t s ((v, e), s') \<longrightarrow> e \<noteq> None)
           \<longrightarrow> firstErr p \<noteq> None)"
    if "(pool_step worker (pool_size concurrency))\<^sup>*\<^sup>* (pool_start concurrency inputs s) p
        \<and> pool_done p" for p
  proof -
    from that have run: "(pool_step worker (pool_size concurrency))\<^sup>*\<^sup>*
        (pool_start concurrency inputs s) p" and d: "pool_done p"
      by (rule conjunct1, rule conjunct2)
    note o = pool_done_outcome[OF run d]
    from o(1) o(2) o(3) o(4) o(5) o(6) show ?thesis
      by (intro conjI)
  qed
  have tot: "(\<exists>rs fe s'. runWorkers worker inputs concurrency s ((rs, fe), s')) \<and>
      wf {(p', p). pool_step worker (pool_size concurrency) p p'} \<and>
      (\<forall>p. (pool_step worker (pool_size concurrency))\<^sup>*\<^sup>* (pool_start concurrency inputs s) p
            \<and> \<not> pool_done p \<longrightarrow> (\<exists>p'. pool_step worker (pool_size concurrency) p p'))"
    if total: "\<forall>t s. \<exists>out. worker t s out"
  proof (intro conjI allI impI)
    from runWorkers_total[OF total, of inputs concurrency s]
    obtain out where "runWorkers worker inputs concurrency s out" by blast
    then have "runWorkers worker inputs concurrency s ((fst (fst out), snd (fst out)), snd out)"
      by simp
    then show "\<exists>rs fe s'. runWorkers worker inputs concurrency s ((rs, fe), s')"
      by blast
  next
    show "wf {(p', p). pool_step worker (pool_size concurrency) p p'}"
      by (rule pool_step_wf)
  next
    fix p
    assume "(pool_step worker (pool_size concurrency))\<^sup>*\<^sup>* (pool_start concurrency inputs s) p
            \<and> \<not> pool_done p"
    then have "pool_inv worker (pool_size concurrency) inputs p" and nd: "\<not> pool_done p"
      by (auto intro: pool_reachable_inv)
    then have "length (tasks p) = pool_size concurrency"
      by (simp add: pool_inv_def)
    from pool_progress[OF total this pool_size_pos nd]
    show "\<exists>p'. pool_step worker (pool_size concurrency) p p'" .
  qed
  from ret fin tot show ?thesis
    by blast
qed

theorem runWorkers_results_witness:
  "\<exists>rs fe s'. runWorkers failing_worker [''a'', ''b''] 1 () ((rs, fe), s') \<and>
       length rs = 2 \<and> fe \<noteq> None"
proof -
  have total: "\<forall>t s. \<exists>out. failing_worker t s out"
    by (simp add: failing_worker_def)
  have fails: "\<forall>t s v e s'. failing_worker t s ((v, e), s') \<longrightarrow> e \<noteq> None"
    by (simp add: failing_worker_def)
  note th = runWorkers_results[of failing_worker "[''a'', ''b'']" 1 "()"]
  from th total obtain rs fe s' where
    r: "runWorkers failing_worker [''a'', ''b''] 1 () ((rs, fe), s')"
    by blast
  with th have "length rs = length [''a'', ''b'']"
    by blast
  then have l: "length rs = 2"
    by simp
  from th r fails have "fe \<noteq> None"
    by blast
  with r l show ?thesis
    by (intro exI[of _ rs] exI[of _ fe] exI[of _ s'] conjI)
qed


section \<open>The scan of the accepted URLs\<close>

lemma check_worker_total:
  "\<exists>out. check_worker net lang name headCache out"
  by (simp add: check_worker_def)

lemma checkURLDependencies_total:
  "\<exists>out. checkURLDependencies net unmarshal targetURL threads headCache out"
proof (cases "getDependencies net unmarshal targetURL")
  case (Inl e)
  then show ?thesis by (blast intro: checkURLDependencies.failed)
next
  case (Inr dl)
  obtain deps lang where dl: "dl = (deps, lang)" by (cases dl)
  show ?thesis
  proof (cases "deps = []")
    case True
    with Inr dl show ?thesis by (blast intro: checkURLDependencies.nothing)
  next
    case False
    have "\<forall>t s. \<exists>out. check_worker net lang t s out"
      by (intro allI check_worker_total)
    from runWorkers_total[OF this, of "dep_inputs deps" threads headCache]
    obtain out where "runWorkers (check_worker net lang) (dep_inputs deps) threads headCache out"
      by blast
    then obtain outs ferr headCache' where
      "runWorkers (check_worker net lang) (dep_inputs deps) threads headCache
         ((outs, ferr), headCache')"
      by (cases out) auto
    with Inr dl False show ?thesis by (blast intro: checkURLDependencies.checked)
  qed
qed

lemma url_worker_total:
  "\<forall>x headCache. \<exists>out. url_worker net unmarshal threads x headCache out"
proof (intro allI)
  fix x headCache
  from checkURLDependencies_total[of net unmarshal x threads headCache]
  obtain out where "checkURLDependencies net unmarshal x threads headCache out" by blast
  then obtain vv e headCache' where
    "checkURLDependencies net unmarshal x threads headCache ((vv, e), headCache')"
    by (cases out) auto
  then show "\<exists>out. url_worker net unmarshal threads x headCache out"
    by (blast intro: url_worker.intros)
qed

text \<open>Extraction fails when the fetch fails, or when the URL is named \<^verbatim>\<open>package.json\<close> and
  the document cannot be decoded, and in no other case.\<close>

lemma getDependencies_fails:
  "getDependencies net unmarshal u = Inl e \<longleftrightarrow>
     httpGET net u = Inl e \<or>
     (\<exists>body status. httpGET net u = Inr (body, status) \<and>
        EqualFold (path_Base u) ''package.json'' \<and> unmarshal body = Inl e)"
  by (auto simp: getDependencies_def split: sum.splits prod.splits if_splits)

text \<open>A URL whose fetch or extraction fails has no findings, and an error.\<close>

lemma checkURLDependencies_failed:
  assumes "checkURLDependencies net unmarshal u threads headCache ((vv, e'), headCache')"
    and "getDependencies net unmarshal u = Inl e"
  shows "vv = [] \<and> e' = Some e"
  using assms by (auto elim: checkURLDependencies.cases)

lemma filterManifestURLs_Nil:
  "filterManifestURLs parse [] = []"
  by (simp add: filterManifestURLs_def)

text \<open>The results of the outer pool: one for each accepted URL, each of them a result of
  \<open>checkURLDependencies\<close> for its URL.\<close>

lemma main_results_urls:
  assumes "main_results net unmarshal parse threads stdin headCache rs"
  shows "mset (map outp_u rs) = mset (filterManifestURLs parse (input_lines stdin))"
    and "\<forall>r\<in>set rs. \<exists>hc hc'. checkURLDependencies net unmarshal (outp_u r)
            (clamp_threads threads) hc ((outp_vulns r, outp_err r), hc')"
  using assms
proof (induction rule: main_results.induct)
  case (no_input stdin headCache)
  {
    case 1
    then show ?case by (simp add: no_input filterManifestURLs_Nil)
  next
    case 2
    then show ?case by simp
  }
next
  case (no_url stdin headCache)
  {
    case 1
    then show ?case by (simp add: no_url)
  next
    case 2
    then show ?case by simp
  }
next
  case (scanned stdin headCache rs ferr headCache')
  let ?urls = "filterManifestURLs parse (input_lines stdin)"
  let ?w = "url_worker net unmarshal (clamp_threads threads)"
  from scanned(3) obtain p where
    reach: "(pool_step ?w (pool_size (clamp_threads threads)))\<^sup>*\<^sup>*
              (pool_start (clamp_threads threads) ?urls headCache) p"
    and d: "pool_done p" and rs: "rs = results p"
    by (auto elim: runWorkers.cases)
  from reach have inv: "pool_inv ?w (pool_size (clamp_threads threads)) ?urls p"
    by (rule pool_reachable_inv)
  then have r: "results p = map (\<lambda>out. fst (snd out)) (received p)"
    and l: "list_all (\<lambda>out. result_of ?w ?urls (fst out) (fst (snd out)) (snd (snd out)))
          (received p)"
    unfolding pool_inv_def by blast+
  have each: "fst out < length ?urls \<and> outp_u (fst (snd out)) = ?urls ! fst out \<and>
      (\<exists>hc hc'. checkURLDependencies net unmarshal (outp_u (fst (snd out)))
            (clamp_threads threads) hc
            ((outp_vulns (fst (snd out)), outp_err (fst (snd out))), hc'))"
    if "out \<in> set (received p)" for out
  proof -
    from l that have "result_of ?w ?urls (fst out) (fst (snd out)) (snd (snd out))"
      by (simp add: list_all_iff)
    then obtain s s' where i: "fst out < length ?urls"
      and w: "?w (?urls ! fst out) s ((fst (snd out), snd (snd out)), s')"
      unfolding result_of_def by blast
    from w obtain vv e where o: "fst (snd out) =
          \<lparr>outp_u = ?urls ! fst out, outp_vulns = vv, outp_err = e\<rparr>"
      and c: "checkURLDependencies net unmarshal (?urls ! fst out) (clamp_threads threads) s
          ((vv, e), s')"
      by (auto elim: url_worker.cases)
    from c have "\<exists>hc hc'. checkURLDependencies net unmarshal (?urls ! fst out)
          (clamp_threads threads) hc ((vv, e), hc')"
      by blast
    with i show ?thesis
      unfolding o by simp
  qed
  {
    case 1
    have "map outp_u rs = map (\<lambda>i. ?urls ! i) (map fst (received p))"
      unfolding rs r using each by simp
    then have "mset (map outp_u rs) = image_mset (\<lambda>i. ?urls ! i) (mset (map fst (received p)))"
      by (simp only: mset_map)
    also have "\<dots> = image_mset (\<lambda>i. ?urls ! i) (mset [0..<length ?urls])"
      unfolding pool_done_received(1)[OF inv d] ..
    also have "\<dots> = mset (map (\<lambda>i. ?urls ! i) [0..<length ?urls])"
      by simp
    also have "\<dots> = mset ?urls"
      by (simp only: map_nth)
    finally show ?case .
  next
    case 2
    show ?case
    proof
      fix r' assume "r' \<in> set rs"
      then obtain out where "out \<in> set (received p)" "r' = fst (snd out)"
        unfolding rs r by auto
      with each[of out] show "\<exists>hc hc'. checkURLDependencies net unmarshal (outp_u r')
            (clamp_threads threads) hc ((outp_vulns r', outp_err r'), hc')"
        by blast
    qed
  }
qed

lemma report_source:
  "f \<in> set (report rs) \<Longrightarrow>
   \<exists>r\<in>set rs. outp_err r = None \<and> fst f \<in> set (outp_vulns r) \<and> snd f = outp_u r"
  by (auto simp: report_def split: if_splits)

lemma main_results_total:
  "\<exists>rs. main_results net unmarshal parse threads stdin headCache rs"
proof (cases "input_lines stdin = []")
  case True
  then show ?thesis by (blast intro: main_results.no_input)
next
  case False
  show ?thesis
  proof (cases "filterManifestURLs parse (input_lines stdin) = []")
    case True
    with False show ?thesis by (blast intro: main_results.no_url)
  next
    case urls: False
    from runWorkers_total[OF url_worker_total,
        of net unmarshal "clamp_threads threads" "filterManifestURLs parse (input_lines stdin)"
          "clamp_threads threads" headCache]
    obtain out where "runWorkers (url_worker net unmarshal (clamp_threads threads))
        (filterManifestURLs parse (input_lines stdin)) (clamp_threads threads) headCache out"
      by blast
    then obtain rs ferr headCache' where
      "runWorkers (url_worker net unmarshal (clamp_threads threads))
        (filterManifestURLs parse (input_lines stdin)) (clamp_threads threads) headCache
        ((rs, ferr), headCache')"
      by (cases out) auto
    with False urls show ?thesis by (blast intro: main_results.scanned)
  qed
qed


text \<open>
  C5. \<^verbatim>\<open>main\<close> always comes to its results, with one result for each accepted URL, each
  of them a result of \<open>checkURLDependencies\<close> for its URL: the failure of one URL does
  not keep the others from being scanned. A URL whose fetch or extraction fails is
  given up without a word: no line of the report names it. The report holds findings
  only, no errors.
\<close>

theorem main_abandons_failed_urls:
  "(\<exists>rs. main_results net unmarshal parse threads stdin headCache rs) \<and>
   (\<forall>rs. main_results net unmarshal parse threads stdin headCache rs \<longrightarrow>
      mset (map outp_u rs) = mset (filterManifestURLs parse (input_lines stdin)) \<and>
      (\<forall>r\<in>set rs. \<exists>hc hc'. checkURLDependencies net unmarshal (outp_u r)
            (clamp_threads threads) hc ((outp_vulns r, outp_err r), hc')) \<and>
      (\<forall>u e. getDependencies net unmarshal u = Inl e \<longrightarrow>
         (\<forall>r\<in>set rs. outp_u r = u \<longrightarrow> outp_vulns r = [] \<and> outp_err r = Some e) \<and>
         (\<forall>f\<in>set (report rs). snd f \<noteq> u)))"
proof (intro conjI allI impI)
  show "\<exists>rs. main_results net unmarshal parse threads stdin headCache rs"
    by (rule main_results_total)
next
  fix rs
  assume "main_results net unmarshal parse threads stdin headCache rs"
  then show "mset (map outp_u rs) = mset (filterManifestURLs parse (input_lines stdin))"
    by (rule main_results_urls(1))
next
  fix rs
  assume "main_results net unmarshal parse threads stdin headCache rs"
  then show "\<forall>r\<in>set rs. \<exists>hc hc'. checkURLDependencies net unmarshal (outp_u r)
            (clamp_threads threads) hc ((outp_vulns r, outp_err r), hc')"
    by (rule main_results_urls(2))
next
  fix rs u e
  assume m: "main_results net unmarshal parse threads stdin headCache rs"
    and g: "getDependencies net unmarshal u = Inl e"
  show "\<forall>r\<in>set rs. outp_u r = u \<longrightarrow> outp_vulns r = [] \<and> outp_err r = Some e"
    using main_results_urls(2)[OF m] checkURLDependencies_failed[OF _ g] by blast
next
  fix rs u e
  assume m: "main_results net unmarshal parse threads stdin headCache rs"
    and g: "getDependencies net unmarshal u = Inl e"
  have a: "\<forall>r\<in>set rs. outp_u r = u \<longrightarrow> outp_err r = Some e"
    using main_results_urls(2)[OF m] checkURLDependencies_failed[OF _ g] by blast
  show "\<forall>f\<in>set (report rs). snd f \<noteq> u"
  proof
    fix f assume "f \<in> set (report rs)"
    from report_source[OF this] obtain r where "r \<in> set rs" "outp_err r = None"
      "snd f = outp_u r" by blast
    with a show "snd f \<noteq> u" by auto
  qed
qed

theorem main_abandons_failed_urls_witness:
  "\<exists>rs. main_results unreachable undecodable parse_example 20
          [''https://example.com/a/Package.json?v=1''] Map.empty rs \<and>
        map outp_u rs = [''https://example.com/a/Package.json?v=1''] \<and>
        report rs = []"
proof -
  let ?u = "''https://example.com/a/Package.json?v=1''"
  note th = main_abandons_failed_urls[of unreachable undecodable parse_example 20 "[?u]" Map.empty]
  from th[THEN conjunct1]
  obtain rs where m: "main_results unreachable undecodable parse_example 20 [?u] Map.empty rs"
    by (rule exE)
  note c = th[THEN conjunct2, rule_format, OF m]
  have i: "input_lines [?u] = [?u]"
    by code_simp
  have f: "filterManifestURLs parse_example [?u] = [?u]"
    by code_simp
  have g: "getDependencies unreachable undecodable ?u = Inl (Err ''timeout'')"
    by (simp add: getDependencies_def httpGET_def unreachable_def)
  from c[THEN conjunct1] have "mset (map outp_u rs) = mset [?u]"
    unfolding i f .
  then have "mset (map outp_u rs) = {#?u#}"
    by (simp only: mset.simps)
  then have u: "map outp_u rs = [?u]"
    by (simp only: mset_single_iff)
  note n = c[THEN conjunct2, THEN conjunct2, rule_format, OF g, THEN conjunct2]
  have e: "report rs = []"
  proof (rule ccontr)
    assume "report rs \<noteq> []"
    then obtain f where f: "f \<in> set (report rs)"
      by (cases "report rs") auto
    from report_source[OF f] obtain r where "r \<in> set rs" "snd f = outp_u r" by blast
    then have "snd f \<in> set (map outp_u rs)" by auto
    then have "snd f = ?u" unfolding u by simp
    with n[rule_format, OF f] show False by (rule notE)
  qed
  show ?thesis
    by (intro exI[of _ rs] conjI m u e)
qed

end
